theory Spec2Isabelle
  imports Complex_Main "HOL-Library.Word" "HOL-Library.Sublist" "HOL-Library.Log_Nat"
begin

section \<open>Data model of \<open>src/App.tsx\<close>\<close>

text \<open>
  The component \<open>App\<close> keeps five pieces of state (\<open>useState\<close>): the task list, the
  text of the input field, the filter, the screen flag and the analytics record.
  Event handlers are modelled as functions from the state at the time of the event
  (the values the handler's closure sees) to the state after it; every reading of the
  clock (\<open>Date.now()\<close>, \<open>new Date()\<close>) is an explicit argument.

  Counters and timestamps are JavaScript numbers that hold integers. A field of the
  model is the \<open>int\<close> that the number holds; \<open>x + 1\<close> on a counter is the addition of
  doubles, \<open>addOne\<close> below, which is the integer successor as long as \<open>|x| < 2^53\<close>
  and rounds beyond. Strings are sequences of UTF-16 code units.
\<close>

type_synonym char16 = "16 word"
type_synonym jsstring = "char16 list"

record Todo =
  todo_id :: int
  todo_text :: jsstring
  completed :: bool
  createdAt :: int

record Analytics =
  totalVisitors :: int
  pageViews :: int
  sessionStart :: int
  lastVisit :: int
  todosCreated :: int
  todosCompleted :: int
  todosDeleted :: int
  sessionsCount :: int

datatype FilterType = All | Active | Completed

record AppState =
  todos :: "Todo list"
  inputValue :: jsstring
  filter_sel :: FilterType
  showAnalytics :: bool
  analytics :: Analytics

text \<open>The arguments of the \<open>useState\<close> calls; \<open>t0\<close> is the clock when they are evaluated.\<close>

definition initialAnalytics :: "int \<Rightarrow> Analytics" where
  "initialAnalytics t0 =
     \<lparr> totalVisitors = 0, pageViews = 0, sessionStart = t0, lastVisit = 0,
       todosCreated = 0, todosCompleted = 0, todosDeleted = 0, sessionsCount = 0 \<rparr>"

definition initialState :: "int \<Rightarrow> AppState" where
  "initialState t0 =
     \<lparr> todos = [], inputValue = [], filter_sel = All, showAnalytics = False,
       analytics = initialAnalytics t0 \<rparr>"

section \<open>\<open>String.prototype.trim\<close>\<close>

text \<open>
  \<open>trim\<close> removes the ECMAScript white space and line terminator code points from
  both ends: TAB, LF, VT, FF, CR, SPACE, NBSP, U+1680, U+2000 to U+200A, U+2028, U+2029,
  U+202F, U+205F, U+3000 and U+FEFF. All of them are single code units.
\<close>

definition isWhiteSpace :: "char16 \<Rightarrow> bool" where
  "isWhiteSpace c \<longleftrightarrow>
     c \<in> set [0x0009, 0x000A, 0x000B, 0x000C, 0x000D, 0x0020, 0x00A0, 0x1680,
              0x2000, 0x2001, 0x2002, 0x2003, 0x2004, 0x2005, 0x2006, 0x2007,
              0x2008, 0x2009, 0x200A, 0x2028, 0x2029, 0x202F, 0x205F, 0x3000, 0xFEFF]"

definition trim :: "jsstring \<Rightarrow> jsstring" where
  "trim s = rev (dropWhile isWhiteSpace (rev (dropWhile isWhiteSpace s)))"

text \<open>An ASCII literal as a string of code units.\<close>

definition js :: "string \<Rightarrow> jsstring" where
  "js s = map (\<lambda>c. of_nat (of_char c)) s"

section \<open>JavaScript numbers\<close>

text \<open>
  The numbers of the program are IEEE 754 binary64 numbers. The counters hold
  integers; the derived metrics divide, so their values need not be integers. A
  number is a rational (a finite double), an infinity or NaN.
  Negative zero is identified with zero: the program never divides by a computed
  zero, and both zeros print as \<open>0\<close>.

  \<open>fl\<close> rounds a rational to the nearest double, ties to the even significand: the
  significand has 53 bits, the exponent of the last bit is at least \<open>-1074\<close>
  (subnormal numbers), and a result of magnitude \<open>2^1024\<close> or more is an infinity.
\<close>

datatype jsnum = Fin rat | PosInf | NegInf | NaN

text \<open>\<open>ilog2 x\<close> is the exponent \<open>e\<close> with \<open>2^e \<le> |x| < 2^(e+1)\<close>, for \<open>x \<noteq> 0\<close>.\<close>

definition ilog2 :: "rat \<Rightarrow> int" where
  "ilog2 x = (let (p, q) = quotient_of \<bar>x\<bar>; e = bitlen p - bitlen q
              in if 2 powi e \<le> \<bar>x\<bar> then e else e - 1)"

definition roundHalfEven :: "rat \<Rightarrow> int" where
  "roundHalfEven t = (let f = \<lfloor>t\<rfloor>; d = t - of_int f
                      in if d < 1/2 then f else if 1/2 < d then f + 1
                         else if even f then f else f + 1)"

definition fl :: "rat \<Rightarrow> rat" where
  "fl x = (if x = 0 then 0
           else let e = max (ilog2 x) (- 1022); q = 2 powi (e - 52)
                in of_int (roundHalfEven (x / q)) * q)"

definition round64 :: "rat \<Rightarrow> jsnum" where
  "round64 x = (let y = fl x in
                if 2 powi 1024 \<le> \<bar>y\<bar> then (if 0 < y then PosInf else NegInf) else Fin y)"

text \<open>The operators \<open>-\<close>, \<open>*\<close>, \<open>/\<close> and \<open>%\<close> on numbers.\<close>

definition js_sub :: "jsnum \<Rightarrow> jsnum \<Rightarrow> jsnum" where
  "js_sub a b =
     (case a of
        NaN \<Rightarrow> NaN
      | Fin x \<Rightarrow> (case b of Fin y \<Rightarrow> round64 (x - y) | PosInf \<Rightarrow> NegInf
                              | NegInf \<Rightarrow> PosInf | NaN \<Rightarrow> NaN)
      | PosInf \<Rightarrow> (case b of Fin y \<Rightarrow> PosInf | PosInf \<Rightarrow> NaN
                              | NegInf \<Rightarrow> PosInf | NaN \<Rightarrow> NaN)
      | NegInf \<Rightarrow> (case b of Fin y \<Rightarrow> NegInf | PosInf \<Rightarrow> NegInf
                              | NegInf \<Rightarrow> NaN | NaN \<Rightarrow> NaN))"

definition js_mul :: "jsnum \<Rightarrow> jsnum \<Rightarrow> jsnum" where
  "js_mul a b =
     (case a of
        NaN \<Rightarrow> NaN
      | Fin x \<Rightarrow> (case b of
                    Fin y \<Rightarrow> round64 (x * y)
                  | PosInf \<Rightarrow> (if x = 0 then NaN else if 0 < x then PosInf else NegInf)
                  | NegInf \<Rightarrow> (if x = 0 then NaN else if 0 < x then NegInf else PosInf)
                  | NaN \<Rightarrow> NaN)
      | PosInf \<Rightarrow> (case b of
                    Fin y \<Rightarrow> (if y = 0 then NaN else if 0 < y then PosInf else NegInf)
                  | PosInf \<Rightarrow> PosInf | NegInf \<Rightarrow> NegInf | NaN \<Rightarrow> NaN)
      | NegInf \<Rightarrow> (case b of
                    Fin y \<Rightarrow> (if y = 0 then NaN else if 0 < y then NegInf else PosInf)
                  | PosInf \<Rightarrow> NegInf | NegInf \<Rightarrow> PosInf | NaN \<Rightarrow> NaN))"

definition js_div :: "jsnum \<Rightarrow> jsnum \<Rightarrow> jsnum" where
  "js_div a b =
     (case a of
        NaN \<Rightarrow> NaN
      | Fin x \<Rightarrow> (case b of
                    Fin y \<Rightarrow> (if y = 0
                              then (if x = 0 then NaN else if 0 < x then PosInf else NegInf)
                              else round64 (x / y))
                  | PosInf \<Rightarrow> Fin 0 | NegInf \<Rightarrow> Fin 0 | NaN \<Rightarrow> NaN)
      | PosInf \<Rightarrow> (case b of Fin y \<Rightarrow> (if 0 \<le> y then PosInf else NegInf)
                              | PosInf \<Rightarrow> NaN | NegInf \<Rightarrow> NaN | NaN \<Rightarrow> NaN)
      | NegInf \<Rightarrow> (case b of Fin y \<Rightarrow> (if 0 \<le> y then NegInf else PosInf)
                              | PosInf \<Rightarrow> NaN | NegInf \<Rightarrow> NaN | NaN \<Rightarrow> NaN))"

text \<open>
  The remainder \<open>%\<close> has the sign of the dividend (the quotient is truncated towards
  zero) and is exact.
\<close>

definition trunc :: "rat \<Rightarrow> int" where
  "trunc t = (if 0 \<le> t then \<lfloor>t\<rfloor> else \<lceil>t\<rceil>)"

definition js_mod :: "jsnum \<Rightarrow> jsnum \<Rightarrow> jsnum" where
  "js_mod a b =
     (case a of
        Fin x \<Rightarrow> (case b of
                    Fin y \<Rightarrow> (if y = 0 then NaN else Fin (x - y * of_int (trunc (x / y))))
                  | PosInf \<Rightarrow> Fin x | NegInf \<Rightarrow> Fin x | NaN \<Rightarrow> NaN)
      | PosInf \<Rightarrow> NaN | NegInf \<Rightarrow> NaN | NaN \<Rightarrow> NaN)"

definition Math_floor :: "jsnum \<Rightarrow> jsnum" where
  "Math_floor v = (case v of Fin x \<Rightarrow> Fin (of_int \<lfloor>x\<rfloor>) | _ \<Rightarrow> v)"

definition Math_round :: "jsnum \<Rightarrow> jsnum" where
  "Math_round v = (case v of Fin x \<Rightarrow> Fin (of_int \<lfloor>x + 1/2\<rfloor>) | _ \<Rightarrow> v)"

text \<open>
  Conversion of a number to a string, as a template literal does it. Integers of
  magnitude up to \<open>2^53\<close> print as their decimal digits; other finite numbers
  (fractions, and larger integers, which print with shortened digits or an exponent)
  are outside the model: \<open>None\<close>.
\<close>

definition digitChar :: "nat \<Rightarrow> char" where
  "digitChar n = ''0123456789'' ! n"

fun digits :: "nat \<Rightarrow> string" where
  "digits n = (if n < 10 then [digitChar n] else digits (n div 10) @ [digitChar (n mod 10)])"

definition showInt :: "int \<Rightarrow> string" where
  "showInt i = (if i < 0 then CHR ''-'' # digits (nat (- i)) else digits (nat i))"

definition numToString :: "jsnum \<Rightarrow> string option" where
  "numToString v =
     (case v of
        NaN \<Rightarrow> Some ''NaN''
      | PosInf \<Rightarrow> Some ''Infinity''
      | NegInf \<Rightarrow> Some ''-Infinity''
      | Fin x \<Rightarrow> (if x = of_int \<lfloor>x\<rfloor> \<and> \<bar>x\<bar> \<le> 2 ^ 53 then Some (showInt \<lfloor>x\<rfloor>) else None))"

text \<open>The template literal \<^verbatim>\<open>`${minutes}m ${seconds}s`\<close>.\<close>

definition minutesSeconds :: "jsnum \<Rightarrow> jsnum \<Rightarrow> string option" where
  "minutesSeconds minutes seconds =
     (case (numToString minutes, numToString seconds) of
        (Some m, Some s) \<Rightarrow> Some (m @ ''m '' @ s @ ''s'')
      | _ \<Rightarrow> None)"

text \<open>
  The counters are incremented with \<open>x + 1\<close> on numbers. \<open>isNumber x\<close> says that the
  integer \<open>x\<close> is the value of a double. For such an \<open>x\<close>, \<open>addOne x\<close> is the double
  nearest to \<open>x + 1\<close>, ties to the even significand; it is an integer again, and it is
  finite, since the sum stays below \<open>2^1024\<close>. An integer that is not the value of a
  double cannot be held by a field; \<open>addOne\<close> is the successor there.
\<close>

definition isNumber :: "int \<Rightarrow> bool" where
  "isNumber x \<longleftrightarrow> fl (of_int x) = of_int x \<and> \<bar>x\<bar> < 2 ^ 1024"

definition addOne :: "int \<Rightarrow> int" where
  "addOne x = (if isNumber x then \<lfloor>fl (of_int x + 1)\<rfloor> else x + 1)"

section \<open>Task operations\<close>

text \<open>
  \<open>addTodo\<close>: \<open>now\<close> is the value of \<open>Date.now()\<close> and \<open>created\<close> that of \<open>new Date()\<close>.
\<close>

definition addTodo :: "AppState \<Rightarrow> int \<Rightarrow> int \<Rightarrow> AppState" where
  "addTodo st now created =
     (if trim (inputValue st) \<noteq> [] then
        let newTodo = \<lparr> todo_id = now, todo_text = trim (inputValue st),
                        completed = False, createdAt = created \<rparr>
        in st \<lparr> todos := todos st @ [newTodo],
                inputValue := [],
                analytics := (analytics st) \<lparr> todosCreated := addOne (todosCreated (analytics st)) \<rparr> \<rparr>
      else st)"

text \<open>
  \<open>toggleTodo\<close> maps over the list; the callback calls \<open>setAnalytics\<close> for every
  matching task that is not completed, so the analytics record is threaded through
  the traversal.
\<close>

fun toggleMap :: "int \<Rightarrow> Todo list \<Rightarrow> Analytics \<Rightarrow> Todo list \<times> Analytics" where
  "toggleMap i [] a = ([], a)"
| "toggleMap i (todo # rest) a =
     (if todo_id todo = i then
        let a' = (if \<not> completed todo
                  then a \<lparr> todosCompleted := addOne (todosCompleted a) \<rparr> else a);
            (rest', a'') = toggleMap i rest a'
        in (todo \<lparr> completed := \<not> completed todo \<rparr> # rest', a'')
      else
        let (rest', a'') = toggleMap i rest a
        in (todo # rest', a''))"

definition toggleTodo :: "AppState \<Rightarrow> int \<Rightarrow> AppState" where
  "toggleTodo st i =
     (let (ts, a) = toggleMap i (todos st) (analytics st)
      in st \<lparr> todos := ts, analytics := a \<rparr>)"

definition deleteTodo :: "AppState \<Rightarrow> int \<Rightarrow> AppState" where
  "deleteTodo st i =
     st \<lparr> todos := filter (\<lambda>todo. todo_id todo \<noteq> i) (todos st),
          analytics := (analytics st) \<lparr> todosDeleted := addOne (todosDeleted (analytics st)) \<rparr> \<rparr>"

definition filteredTodos :: "AppState \<Rightarrow> Todo list" where
  "filteredTodos st =
     filter (\<lambda>todo. if filter_sel st = Active then \<not> completed todo
                    else if filter_sel st = Completed then completed todo
                    else True) (todos st)"

section \<open>Loading the persisted state\<close>

text \<open>
  The mount effect reads the two keys of \<open>localStorage\<close>; an absent key is \<open>None\<close>, a
  present one is the parsed value. \<open>now\<close> is the clock read inside the effect. The
  difference \<open>now - lastVisit\<close> is compared with one day as an integer; the comparison
  of the rounded difference gives the same (\<open>oneDay_comparison\<close> below).
\<close>

definition oneDayMs :: int where
  "oneDayMs = 24 * 60 * 60 * 1000"

definition loadAnalytics :: "Analytics \<Rightarrow> Analytics option \<Rightarrow> int \<Rightarrow> Analytics" where
  "loadAnalytics prev savedAnalytics now =
     (case savedAnalytics of
        Some parsedAnalytics \<Rightarrow>
          let isNewVisitor = now - lastVisit parsedAnalytics > oneDayMs
          in parsedAnalytics
               \<lparr> pageViews := addOne (pageViews parsedAnalytics),
                 totalVisitors := (if isNewVisitor then addOne (totalVisitors parsedAnalytics)
                                   else totalVisitors parsedAnalytics),
                 sessionStart := now,
                 lastVisit := now,
                 sessionsCount := addOne (sessionsCount parsedAnalytics) \<rparr>
      | None \<Rightarrow>
          prev \<lparr> totalVisitors := 1, pageViews := 1, lastVisit := now, sessionsCount := 1 \<rparr>)"

definition loadEffect :: "AppState \<Rightarrow> Todo list option \<Rightarrow> Analytics option \<Rightarrow> int \<Rightarrow> AppState" where
  "loadEffect st savedTodos savedAnalytics now =
     st \<lparr> todos := (case savedTodos of Some parsedTodos \<Rightarrow> parsedTodos | None \<Rightarrow> todos st),
          analytics := loadAnalytics (analytics st) savedAnalytics now \<rparr>"

text \<open>One page load: initial render at clock \<open>t0\<close>, then the mount effect at clock \<open>now\<close>.\<close>

definition pageLoad :: "int \<Rightarrow> Todo list option \<Rightarrow> Analytics option \<Rightarrow> int \<Rightarrow> AppState" where
  "pageLoad t0 savedTodos savedAnalytics now =
     loadEffect (initialState t0) savedTodos savedAnalytics now"

section \<open>Derived metrics\<close>

text \<open>\<open>getAverageSessionDuration\<close>; \<open>now\<close> is the value of \<open>Date.now()\<close>.\<close>

definition getAverageSessionDuration :: "Analytics \<Rightarrow> int \<Rightarrow> string option" where
  "getAverageSessionDuration a now =
     (if sessionsCount a = 0 then Some ''0m 0s''
      else let avgDuration = js_div (js_sub (Fin (of_int now)) (Fin (of_int (sessionStart a))))
                                    (Fin (of_int (sessionsCount a)));
               minutes = Math_floor (js_div avgDuration (Fin 60000));
               seconds = Math_floor (js_div (js_mod avgDuration (Fin 60000)) (Fin 1000))
           in minutesSeconds minutes seconds)"

text \<open>The number shown as completion rate on the analytics screen.\<close>

definition completionRate :: "Analytics \<Rightarrow> jsnum" where
  "completionRate a =
     (if todosCreated a > 0
      then Math_round (js_mul (js_div (Fin (of_int (todosCompleted a))) (Fin (of_int (todosCreated a))))
                              (Fin 100))
      else Fin 0)"

text \<open>
  The average session duration as the specification words it: the quotient
  \<open>(now - sessionStart) / sessionsCount\<close>, divided with floor into whole minutes and
  the whole seconds of the rest.
\<close>

definition specAverageSessionDuration :: "Analytics \<Rightarrow> int \<Rightarrow> string" where
  "specAverageSessionDuration a now =
     (let avg = (of_int (now - sessionStart a) / of_int (sessionsCount a) :: rat);
          minutes = \<lfloor>avg / 60000\<rfloor>;
          seconds = \<lfloor>(avg - 60000 * of_int minutes) / 1000\<rfloor>
      in showInt minutes @ ''m '' @ showInt seconds @ ''s'')"

text \<open>Concrete states used as test inputs below.\<close>

definition buyMilk :: Todo where
  "buyMilk = \<lparr> todo_id = 1, todo_text = js ''Buy milk'', completed = False, createdAt = 1 \<rparr>"

definition walkDog :: Todo where
  "walkDog = \<lparr> todo_id = 2, todo_text = js ''Walk dog'', completed = False, createdAt = 2 \<rparr>"

definition withTodos :: "Todo list \<Rightarrow> AppState" where
  "withTodos ts = (initialState 0) \<lparr> todos := ts \<rparr>"

definition typed :: "string \<Rightarrow> AppState" where
  "typed s = (initialState 0) \<lparr> inputValue := js s \<rparr>"

definition doneTask :: Todo where
  "doneTask = \<lparr> todo_id = 1, todo_text = js ''Buy milk'', completed = True, createdAt = 1 \<rparr>"

text \<open>A second task created in the same millisecond as \<open>buyMilk\<close>, hence with the same id.\<close>

definition milkTwin :: Todo where
  "milkTwin = \<lparr> todo_id = 1, todo_text = js ''Walk dog'', completed = False, createdAt = 1 \<rparr>"

text \<open>Fresh store, add "Buy milk", add "Walk dog", toggle the first task.\<close>

definition scenario :: AppState where
  "scenario =
     toggleTodo (addTodo (addTodo (typed ''Buy milk'') 1 1 \<lparr> inputValue := js ''Walk dog'' \<rparr>) 2 2) 1"

text \<open>The six counters of the analytics record, compared field by field.\<close>

definition countersLe :: "Analytics \<Rightarrow> Analytics \<Rightarrow> bool" where
  "countersLe a b \<longleftrightarrow>
     totalVisitors a \<le> totalVisitors b \<and> pageViews a \<le> pageViews b
     \<and> todosCreated a \<le> todosCreated b \<and> todosCompleted a \<le> todosCompleted b
     \<and> todosDeleted a \<le> todosDeleted b \<and> sessionsCount a \<le> sessionsCount b"

text \<open>An analytics record with the given \<open>todosCompleted\<close> and \<open>todosCreated\<close>.\<close>

definition counts :: "int \<Rightarrow> int \<Rightarrow> Analytics" where
  "counts c t = \<lparr> totalVisitors = 1, pageViews = 1, sessionStart = 0, lastVisit = 0,
       todosCreated = t, todosCompleted = c, todosDeleted = 0, sessionsCount = 1 \<rparr>"

text \<open>An analytics record with the given \<open>sessionStart\<close> and \<open>sessionsCount\<close>.\<close>

definition session :: "int \<Rightarrow> int \<Rightarrow> Analytics" where
  "session start n = \<lparr> totalVisitors = 1, pageViews = 1, sessionStart = start, lastVisit = start,
       todosCreated = 0, todosCompleted = 0, todosDeleted = 0, sessionsCount = n \<rparr>"

text \<open>
  An analytics record whose counters are \<open>2^53\<close>, as the mount effect takes it from
  \<open>localStorage\<close>, and a state with that record and a typed task.
\<close>

definition saturated :: Analytics where
  "saturated = \<lparr> totalVisitors = 9007199254740992, pageViews = 9007199254740992,
       sessionStart = 0, lastVisit = 0, todosCreated = 9007199254740992,
       todosCompleted = 9007199254740992, todosDeleted = 9007199254740992,
       sessionsCount = 9007199254740992 \<rparr>"

definition saturatedState :: AppState where
  "saturatedState = (typed ''Buy milk'') \<lparr> todos := [buyMilk], analytics := saturated \<rparr>"

section \<open>Rounding to the nearest double\<close>

lemma powi_add: "(2::rat) powi (a + b) = 2 powi a * 2 powi b"
  by (simp add: power_int_add)

lemma powi_mono: "a \<le> b \<Longrightarrow> (2::rat) powi a \<le> 2 powi b"
  by (rule power_int_increasing) simp_all

lemma powi_less_cancel: "(2::rat) powi a < 2 powi b \<Longrightarrow> a < b"
  using powi_mono [of b a] by (cases "a < b") auto

lemma powi_nat: "0 \<le> e \<Longrightarrow> (2::rat) powi e = 2 ^ nat e"
  by (simp add: power_int_def)

lemma powi_neg: "e \<le> 0 \<Longrightarrow> (2::rat) powi e * 2 ^ nat (- e) = 1"
  using powi_add [of e "- e"] powi_nat [of "- e"] by simp

lemma ilog2_bounds:
  assumes "x \<noteq> 0"
  shows "2 powi (ilog2 x) \<le> \<bar>x\<bar> \<and> \<bar>x\<bar> < 2 powi (ilog2 x + 1)"
proof -
  obtain p q where pq: "quotient_of \<bar>x\<bar> = (p, q)" by force
  have q: "0 < q" using quotient_of_denom_pos [OF pq] .
  have x: "\<bar>x\<bar> = of_int p / of_int q" using quotient_of_div [OF pq] .
  have "0 < \<bar>x\<bar>" using assms by simp
  with x q have "0 < (of_int p :: rat)"
    by (simp add: zero_less_divide_iff)
  then have p: "0 < p" by simp
  define bp where "bp = bitlen p"
  define bq where "bq = bitlen q"
  have bp1: "1 \<le> bp" using p bitlen_eq_zero_iff [of p] bitlen_nonneg [of p]
    by (simp add: bp_def)
  have bq1: "1 \<le> bq" using q bitlen_eq_zero_iff [of q] bitlen_nonneg [of q]
    by (simp add: bq_def)
  have pl: "2 ^ nat (bp - 1) \<le> p" and pu: "p < 2 ^ nat bp"
    using bitlen_bounds [OF p] by (simp_all add: bp_def)
  have ql: "2 ^ nat (bq - 1) \<le> q" and qu: "q < 2 ^ nat bq"
    using bitlen_bounds [OF q] by (simp_all add: bq_def)
  have pl': "(2::rat) powi (bp - 1) \<le> of_int p"
  proof -
    have "(of_int (2 ^ nat (bp - 1)) :: rat) \<le> of_int p" using pl by (simp only: of_int_le_iff)
    then show ?thesis using bp1 by (simp add: powi_nat)
  qed
  have pu': "(of_int p :: rat) < 2 powi bp"
  proof -
    have "(of_int p :: rat) < of_int (2 ^ nat bp)" using pu by (simp only: of_int_less_iff)
    then show ?thesis using bp1 by (simp add: powi_nat)
  qed
  have ql': "(2::rat) powi (bq - 1) \<le> of_int q"
  proof -
    have "(of_int (2 ^ nat (bq - 1)) :: rat) \<le> of_int q" using ql by (simp only: of_int_le_iff)
    then show ?thesis using bq1 by (simp add: powi_nat)
  qed
  have qu': "(of_int q :: rat) < 2 powi bq"
  proof -
    have "(of_int q :: rat) < of_int (2 ^ nat bq)" using qu by (simp only: of_int_less_iff)
    then show ?thesis using bq1 by (simp add: powi_nat)
  qed
  have qpos: "0 < (of_int q :: rat)" using q by simp
  define e where "e = bp - bq"
  have up: "\<bar>x\<bar> < 2 powi (e + 1)"
  proof -
    have "of_int p < (2::rat) powi (e + 1) * 2 powi (bq - 1)"
      using pu' by (simp add: e_def powi_add [symmetric])
    also have "\<dots> \<le> 2 powi (e + 1) * of_int q"
      using ql' by (simp add: mult_left_mono)
    finally show ?thesis using qpos by (simp add: x pos_divide_less_eq)
  qed
  have lo: "2 powi (e - 1) \<le> \<bar>x\<bar>"
  proof -
    have "(2::rat) powi (e - 1) * of_int q \<le> 2 powi (e - 1) * 2 powi bq"
      using qu' by (simp add: mult_left_mono)
    also have "\<dots> = 2 powi (bp - 1)"
      by (simp add: e_def powi_add [symmetric])
    also have "\<dots> \<le> of_int p" by (rule pl')
    finally show ?thesis using qpos by (simp add: x pos_le_divide_eq)
  qed
  have il: "ilog2 x = (if 2 powi e \<le> \<bar>x\<bar> then e else e - 1)"
    by (simp add: ilog2_def pq e_def bp_def bq_def Let_def)
  show ?thesis
  proof (cases "2 powi e \<le> \<bar>x\<bar>")
    case True
    with il up show ?thesis by simp
  next
    case False
    with il lo show ?thesis by simp
  qed
qed

lemma ilog2_unique:
  assumes "2 powi e \<le> \<bar>x\<bar>" and "\<bar>x\<bar> < 2 powi (e + 1)"
  shows "ilog2 x = e"
proof -
  have "0 < (2::rat) powi e" by simp
  with assms(1) have "0 < \<bar>x\<bar>" by linarith
  then have x: "x \<noteq> 0" by simp
  from ilog2_bounds [OF x] assms
  have "(2::rat) powi (ilog2 x) < 2 powi (e + 1)" and "(2::rat) powi e < 2 powi (ilog2 x + 1)"
    by linarith+
  then have "ilog2 x < e + 1" and "e < ilog2 x + 1"
    by (auto dest: powi_less_cancel)
  then show ?thesis by simp
qed

lemma rhe_cases: "roundHalfEven t = \<lfloor>t\<rfloor> \<or> roundHalfEven t = \<lfloor>t\<rfloor> + 1 \<and> 1/2 \<le> t - of_int \<lfloor>t\<rfloor>"
  by (auto simp: roundHalfEven_def Let_def)

lemma rhe_error: "\<bar>of_int (roundHalfEven t) - t\<bar> \<le> 1/2"
proof -
  have "of_int \<lfloor>t\<rfloor> \<le> t" and "t < of_int \<lfloor>t\<rfloor> + 1" by linarith+
  then show ?thesis
    by (auto simp: roundHalfEven_def Let_def abs_le_iff)
qed

lemma rhe_ge_int: "of_int j \<le> t \<Longrightarrow> j \<le> roundHalfEven t"
proof -
  assume "of_int j \<le> t"
  then have "j \<le> \<lfloor>t\<rfloor>" by (simp add: le_floor_iff)
  with rhe_cases [of t] show ?thesis by auto
qed

lemma rhe_le_int: "t \<le> of_int j \<Longrightarrow> roundHalfEven t \<le> j"
proof -
  assume a: "t \<le> of_int j"
  then have f: "\<lfloor>t\<rfloor> \<le> j" by (simp add: floor_le_iff) 
  show ?thesis
  proof (cases "roundHalfEven t = \<lfloor>t\<rfloor>")
    case True
    with f show ?thesis by simp
  next
    case False
    with rhe_cases [of t] have r: "roundHalfEven t = \<lfloor>t\<rfloor> + 1" and h: "1/2 \<le> t - of_int \<lfloor>t\<rfloor>"
      by auto
    from h a have "(of_int \<lfloor>t\<rfloor> :: rat) < of_int j" by linarith
    then have "\<lfloor>t\<rfloor> < j" by (simp only: of_int_less_iff)
    with r show ?thesis by simp
  qed
qed

lemma fl_0: "fl 0 = 0"
  by (simp add: fl_def)

lemma fl_abs_error:
  assumes "x \<noteq> 0"
  shows "\<bar>fl x - x\<bar> \<le> 2 powi (max (ilog2 x) (- 1022) - 53)"
proof -
  define q where "q = (2::rat) powi (max (ilog2 x) (- 1022) - 52)"
  have q: "0 < q" by (simp add: q_def)
  have f: "fl x = of_int (roundHalfEven (x / q)) * q"
    using assms by (simp add: fl_def Let_def q_def)
  have "fl x - x = (of_int (roundHalfEven (x / q)) - x / q) * q"
    using q by (simp add: f field_simps)
  then have "\<bar>fl x - x\<bar> = \<bar>of_int (roundHalfEven (x / q)) - x / q\<bar> * q"
    using q by (simp add: abs_mult)
  also have "\<dots> \<le> 1/2 * q"
    using rhe_error [of "x / q"] q by (simp add: mult_right_mono)
  also have "\<dots> = 2 powi (max (ilog2 x) (- 1022) - 53)"
    using powi_add [of "max (ilog2 x) (- 1022) - 53" 1] by (simp add: q_def)
  finally show ?thesis .
qed

lemma fl_rel_error:
  assumes "2 powi (- 1022) \<le> \<bar>x\<bar>"
  shows "\<bar>fl x - x\<bar> \<le> \<bar>x\<bar> / 2 ^ 53"
proof -
  have "0 < (2::rat) powi (- 1022)" by (rule zero_less_power_int) simp
  with assms have "0 < \<bar>x\<bar>" by linarith
  then have x: "x \<noteq> 0" by simp
  from ilog2_bounds [OF x] assms have "(2::rat) powi (- 1022) < 2 powi (ilog2 x + 1)"
    by linarith
  then have "- 1022 < ilog2 x + 1" by (rule powi_less_cancel)
  then have m: "max (ilog2 x) (- 1022) = ilog2 x" by simp
  have "\<bar>fl x - x\<bar> \<le> 2 powi (ilog2 x - 53)"
    using fl_abs_error [OF x] by (simp only: m)
  also have "\<dots> = 2 powi (ilog2 x) / 2 ^ 53"
    using powi_add [of "ilog2 x - 53" 53] by simp
  also have "\<dots> \<le> \<bar>x\<bar> / 2 ^ 53"
    using ilog2_bounds [OF x] by (simp add: divide_right_mono)
  finally show ?thesis .
qed

lemma fl_grid:
  assumes "x \<noteq> 0" and "\<bar>x\<bar> < 2 ^ 53"
  obtains q :: rat and k :: nat
  where "0 < q" and "q * 2 ^ k = 1" and "fl x = of_int (roundHalfEven (x / q)) * q"
proof -
  define E where "E = max (ilog2 x) (- 1022)"
  define q where "q = (2::rat) powi (E - 52)"
  have "(2::rat) powi (ilog2 x) < 2 powi 53"
    using ilog2_bounds [OF assms(1)] assms(2) by simp
  then have "ilog2 x < 53" by (rule powi_less_cancel)
  then have E: "E - 52 \<le> 0" by (simp add: E_def)
  have 1: "0 < q" by (simp add: q_def)
  have 2: "q * 2 ^ nat (- (E - 52)) = 1"
    unfolding q_def using E by (rule powi_neg)
  have 3: "fl x = of_int (roundHalfEven (x / q)) * q"
    using assms(1) by (simp add: fl_def Let_def q_def E_def)
  from 1 2 3 show ?thesis by (rule that)
qed

lemma fl_ge_int:
  assumes "\<bar>x\<bar> < 2 ^ 53" and "of_int m \<le> x"
  shows "of_int m \<le> fl x"
proof (cases "x = 0")
  case True
  with assms show ?thesis by (simp add: fl_0)
next
  case False
  from False assms(1) obtain q :: rat and k :: nat
    where q: "0 < q" and qk: "q * 2 ^ k = 1" and f: "fl x = of_int (roundHalfEven (x / q)) * q"
    by (rule fl_grid)
  from qk q have inv: "1 / q = 2 ^ k" by (simp add: field_simps)
  have "(of_int (m * 2 ^ k) :: rat) = of_int m / q"
    by (simp add: inv [symmetric])
  also have "\<dots> \<le> x / q" using assms(2) q by (simp add: divide_right_mono)
  finally have "m * 2 ^ k \<le> roundHalfEven (x / q)" by (rule rhe_ge_int)
  then have "(of_int (m * 2 ^ k) :: rat) \<le> of_int (roundHalfEven (x / q))"
    by (simp only: of_int_le_iff)
  then have h: "(of_int (m * 2 ^ k) :: rat) * q \<le> of_int (roundHalfEven (x / q)) * q"
    using q by (simp only: mult_le_cancel_right_pos)
  have "(of_int (m * 2 ^ k) :: rat) * q = of_int m * (q * 2 ^ k)" by simp
  then have e: "(of_int (m * 2 ^ k) :: rat) * q = of_int m" by (simp only: qk mult_1_right)
  from h show ?thesis by (simp only: e f)
qed

lemma fl_le_int:
  assumes "\<bar>x\<bar> < 2 ^ 53" and "x \<le> of_int m"
  shows "fl x \<le> of_int m"
proof (cases "x = 0")
  case True
  with assms show ?thesis by (simp add: fl_0)
next
  case False
  from False assms(1) obtain q :: rat and k :: nat
    where q: "0 < q" and qk: "q * 2 ^ k = 1" and f: "fl x = of_int (roundHalfEven (x / q)) * q"
    by (rule fl_grid)
  from qk q have inv: "1 / q = 2 ^ k" by (simp add: field_simps)
  have "x / q \<le> of_int m / q" using assms(2) q by (simp add: divide_right_mono)
  also have "\<dots> = (of_int (m * 2 ^ k) :: rat)"
    by (simp add: inv [symmetric])
  finally have "roundHalfEven (x / q) \<le> m * 2 ^ k" by (rule rhe_le_int)
  then have "(of_int (roundHalfEven (x / q)) :: rat) \<le> of_int (m * 2 ^ k)"
    by (simp only: of_int_le_iff)
  then have h: "of_int (roundHalfEven (x / q)) * q \<le> (of_int (m * 2 ^ k) :: rat) * q"
    using q by (simp only: mult_le_cancel_right_pos)
  have "(of_int (m * 2 ^ k) :: rat) * q = of_int m * (q * 2 ^ k)" by simp
  then have e: "(of_int (m * 2 ^ k) :: rat) * q = of_int m" by (simp only: qk mult_1_right)
  from h show ?thesis by (simp only: e f)
qed

lemma fl_of_int: "\<bar>m\<bar> < 2 ^ 53 \<Longrightarrow> fl (of_int m) = of_int m"
proof -
  assume "\<bar>m\<bar> < 2 ^ 53"
  then have "\<bar>of_int m :: rat\<bar> < of_int (2 ^ 53)"
    by (simp only: of_int_abs [symmetric] of_int_less_iff)
  then have b: "\<bar>of_int m :: rat\<bar> < 2 ^ 53" by simp
  from fl_ge_int [OF b, of m] fl_le_int [OF b, of m] show ?thesis by simp
qed

lemma fl_bounded:
  assumes "\<bar>x\<bar> < 2 ^ 53"
  shows "\<bar>fl x\<bar> \<le> 2 ^ 53"
proof -
  from assms have u: "x \<le> of_int (2 ^ 53)" and l: "of_int (- (2 ^ 53)) \<le> x" by simp_all
  from fl_le_int [OF assms u] fl_ge_int [OF assms l] show ?thesis by simp
qed

lemma round64_small: "\<bar>x\<bar> < 2 ^ 53 \<Longrightarrow> round64 x = Fin (fl x)"
proof -
  assume "\<bar>x\<bar> < 2 ^ 53"
  then have "\<bar>fl x\<bar> \<le> 2 ^ 53" by (rule fl_bounded)
  also have "(2::rat) ^ 53 < 2 ^ 1024" by (rule power_strict_increasing) simp_all
  finally have "\<not> 2 powi 1024 \<le> \<bar>fl x\<bar>" by simp
  then show ?thesis by (simp add: round64_def Let_def)
qed

lemma fl_upper:
  assumes "0 \<le> x" and "x = 0 \<or> 2 powi (- 1022) \<le> x"
  shows "fl x \<le> x + x / 2 ^ 53"
proof (cases "x = 0")
  case True
  then show ?thesis by (simp add: fl_0)
next
  case False
  with assms have "2 powi (- 1022) \<le> \<bar>x\<bar>" by simp
  from fl_rel_error [OF this] have "fl x - x \<le> \<bar>x\<bar> / 2 ^ 53" by linarith
  with assms(1) show ?thesis by simp
qed

lemma rhe_neg: "roundHalfEven (- t) = - roundHalfEven t"
proof (cases "t = of_int \<lfloor>t\<rfloor>")
  case True
  then obtain k :: int where t: "t = of_int k" ..
  have "roundHalfEven (of_int k) = k" for k by (simp add: roundHalfEven_def)
  from this [of k] this [of "- k"] show ?thesis by (simp add: t)
next
  case False
  define f where "f = \<lfloor>t\<rfloor>"
  define d where "d = t - of_int f"
  have lo: "of_int f \<le> t" and hi: "t < of_int f + 1" unfolding f_def by linarith+
  from False have "of_int f \<noteq> t" unfolding f_def by (rule not_sym)
  with lo have "of_int f < t" by (simp add: less_le)
  with hi have d: "0 < d" "d < 1" by (simp_all add: d_def)
  have "of_int (- f - 1) \<le> - t" and "- t < of_int (- f - 1) + 1"
    using d by (simp_all add: d_def)
  then have fn: "\<lfloor>- t\<rfloor> = - f - 1" by (rule floor_unique)
  have dn: "- t - of_int (- f - 1) = 1 - d" by (simp add: d_def)
  have ev: "even (- f - 1) \<longleftrightarrow> odd f" by simp
  have a: "roundHalfEven t = (if d < 1/2 then f else if 1/2 < d then f + 1
                                else if even f then f else f + 1)"
    by (simp add: roundHalfEven_def Let_def f_def d_def)
  have b: "roundHalfEven (- t) = (if 1 - d < 1/2 then - f - 1 else if 1/2 < 1 - d then - f - 1 + 1
                                else if even (- f - 1) then - f - 1 else - f - 1 + 1)"
    unfolding roundHalfEven_def Let_def fn dn by (rule refl)
  show ?thesis unfolding a b using d ev by auto
qed

lemma ilog2_neg: "ilog2 (- x) = ilog2 x"
  by (simp add: ilog2_def)

lemma fl_neg: "fl (- x) = - fl x"
proof (cases "x = 0")
  case True
  then show ?thesis by (simp add: fl_0)
next
  case False
  have "roundHalfEven (- x / q) = - roundHalfEven (x / q)" for q :: rat
    using rhe_neg [of "x / q"] by simp
  with False show ?thesis
    by (simp add: fl_def Let_def ilog2_neg)
qed

section \<open>Adding 1 to a counter\<close>

lemma ilog2_mono:
  assumes "x \<noteq> 0" and "\<bar>x\<bar> \<le> \<bar>y\<bar>"
  shows "ilog2 x \<le> ilog2 y"
proof -
  from assms have y: "y \<noteq> 0" by auto
  from ilog2_bounds [OF assms(1)] ilog2_bounds [OF y] assms(2)
  have "(2::rat) powi (ilog2 x) < 2 powi (ilog2 y + 1)" by linarith
  then have "ilog2 x < ilog2 y + 1" by (rule powi_less_cancel)
  then show ?thesis by simp
qed

text \<open>Rounding is monotone: it does not go below a double that is below its argument.\<close>

lemma fl_mono_rep:
  assumes rep: "fl r = r" and le: "r \<le> y"
  shows "r \<le> fl y"
proof (cases "y = 0")
  case True
  with le show ?thesis by (simp add: fl_0)
next
  case y: False
  define Ey where "Ey = max (ilog2 y) (- 1022)"
  define qy where "qy = (2::rat) powi (Ey - 52)"
  have qy: "0 < qy" by (simp add: qy_def)
  have fy: "fl y = of_int (roundHalfEven (y / qy)) * qy"
    using y by (simp add: fl_def Let_def qy_def Ey_def)
  have grid: "of_int k * qy \<le> fl y" if "of_int k * qy \<le> y" for k :: int
  proof -
    from that qy have "of_int k \<le> y / qy" by (simp add: pos_le_divide_eq)
    then have "k \<le> roundHalfEven (y / qy)" by (rule rhe_ge_int)
    then have "(of_int k :: rat) \<le> of_int (roundHalfEven (y / qy))" by (simp only: of_int_le_iff)
    with qy show ?thesis by (simp only: fy mult_le_cancel_right_pos)
  qed
  show ?thesis
  proof (cases "r = 0")
    case True
    with le grid [of 0] show ?thesis by simp
  next
    case r: False
    define Er where "Er = max (ilog2 r) (- 1022)"
    define qr where "qr = (2::rat) powi (Er - 52)"
    have fr: "r = of_int (roundHalfEven (r / qr)) * qr"
      using r rep by (simp add: fl_def Let_def qr_def Er_def)
    show ?thesis
    proof (cases "Ey \<le> Er")
      case True
      have "qr = qy * 2 powi (Er - Ey)"
        using powi_add [of "Ey - 52" "Er - Ey"] by (simp add: qr_def qy_def)
      also have "(2::rat) powi (Er - Ey) = 2 ^ nat (Er - Ey)" using True by (simp add: powi_nat)
      finally have "qr = of_int (2 ^ nat (Er - Ey)) * qy" by simp
      with fr have "r = of_int (roundHalfEven (r / qr) * 2 ^ nat (Er - Ey)) * qy"
        by (simp add: mult.assoc)
      with le grid [of "roundHalfEven (r / qr) * 2 ^ nat (Er - Ey)"] show ?thesis by simp
    next
      case False
      then have lt: "Er < Ey" by simp
      have "- 1022 \<le> Er" by (simp add: Er_def)
      with lt have Ey: "Ey = ilog2 y" by (simp add: Ey_def max_def split: if_splits)
      have "ilog2 r \<le> Er" by (simp add: Er_def)
      with lt Ey have "ilog2 r < ilog2 y" by simp
      with ilog2_mono [of y r] y have ry: "\<bar>r\<bar> < \<bar>y\<bar>" by (cases "\<bar>y\<bar> \<le> \<bar>r\<bar>") auto
      with le have ypos: "0 < y" by linarith
      from ilog2_bounds [OF y] ypos have ylo: "2 powi Ey \<le> y" by (simp add: Ey)
      have "(2::rat) powi Ey = of_int (2 ^ 52) * qy"
        using powi_add [of 52 "Ey - 52"] by (simp add: qy_def)
      with ylo grid [of "2 ^ 52"] have "2 powi Ey \<le> fl y" by simp
      moreover have "\<bar>r\<bar> < 2 powi Ey"
      proof -
        from ilog2_bounds [OF r] have "\<bar>r\<bar> < 2 powi (ilog2 r + 1)" by simp
        also have "\<dots> \<le> 2 powi Ey" using \<open>ilog2 r < ilog2 y\<close> Ey by (intro powi_mono) simp
        finally show ?thesis .
      qed
      ultimately show ?thesis by linarith
    qed
  qed
qed

lemma fl_mono_rep_le:
  assumes rep: "fl r = r" and le: "y \<le> r"
  shows "fl y \<le> r"
proof -
  have "fl (- r) = - r" using rep by (simp add: fl_neg)
  moreover have "- r \<le> - y" using le by simp
  ultimately have "- r \<le> fl (- y)" by (rule fl_mono_rep)
  then show ?thesis by (simp add: fl_neg)
qed

lemma fl_pow53: "fl (2 ^ 53) = 2 ^ 53"
  by code_simp

text \<open>The integers up to \<open>2^53\<close> in magnitude are doubles.\<close>

lemma fl_of_int_le: "\<bar>m\<bar> \<le> 2 ^ 53 \<Longrightarrow> fl (of_int m) = of_int m"
proof (cases "\<bar>m\<bar> < 2 ^ 53")
  case True
  then show ?thesis by (rule fl_of_int)
next
  case False
  assume "\<bar>m\<bar> \<le> 2 ^ 53"
  with False have "m = 2 ^ 53 \<or> m = - (2 ^ 53)" by linarith
  then show ?thesis
  proof
    assume "m = 2 ^ 53"
    then show ?thesis using fl_pow53 by simp
  next
    assume "m = - (2 ^ 53)"
    then show ?thesis using fl_pow53 fl_neg [of "2 ^ 53"] by simp
  qed
qed

lemma isNumber_small: "\<bar>x\<bar> \<le> 2 ^ 53 \<Longrightarrow> isNumber x"
proof -
  assume a: "\<bar>x\<bar> \<le> 2 ^ 53"
  have "(2::int) ^ 53 < 2 ^ 1024" by (rule power_strict_increasing) simp_all
  with a have "\<bar>x\<bar> < 2 ^ 1024" by linarith
  with fl_of_int_le [OF a] show ?thesis by (simp add: isNumber_def)
qed

text \<open>Below \<open>2^53\<close> in magnitude the addition is exact.\<close>

lemma addOne_exact: "\<bar>x\<bar> < 2 ^ 53 \<Longrightarrow> addOne x = x + 1"
proof -
  assume a: "\<bar>x\<bar> < 2 ^ 53"
  then have "\<bar>x + 1\<bar> \<le> 2 ^ 53" by linarith
  then have "fl (of_int (x + 1)) = of_int (x + 1)" by (rule fl_of_int_le)
  then have "\<lfloor>fl (of_int x + 1)\<rfloor> = x + 1" by simp
  moreover have "isNumber x" using a by (intro isNumber_small) simp
  ultimately show ?thesis by (simp add: addOne_def)
qed

text \<open>It never gives less than its argument.\<close>

lemma le_addOne: "x \<le> addOne x"
proof (cases "isNumber x")
  case True
  then have "fl (of_int x) = of_int x" by (simp add: isNumber_def)
  moreover have "(of_int x :: rat) \<le> of_int x + 1" by simp
  ultimately have "of_int x \<le> fl (of_int x + 1)" by (rule fl_mono_rep)
  then have "x \<le> \<lfloor>fl (of_int x + 1)\<rfloor>" by (simp only: le_floor_iff)
  with True show ?thesis by (simp add: addOne_def)
next
  case False
  then show ?thesis by (simp add: addOne_def)
qed

lemma le_funpow_addOne: "x \<le> (addOne ^^ k) x"
proof (induction k)
  case 0
  then show ?case by simp
next
  case (Suc k)
  have "(addOne ^^ k) x \<le> addOne ((addOne ^^ k) x)" by (rule le_addOne)
  with Suc show ?case by simp
qed

lemma addOne_funpow: "\<bar>x\<bar> + int k < 2 ^ 53 \<Longrightarrow> (addOne ^^ k) x = x + int k"
proof (induction k)
  case 0
  then show ?case by simp
next
  case (Suc k)
  then have "(addOne ^^ k) x = x + int k" by simp
  moreover have "\<bar>x + int k\<bar> < 2 ^ 53" using Suc.prems by linarith
  ultimately show ?case by (simp add: addOne_exact)
qed

text \<open>
  At \<open>2^53\<close> the sum \<open>2^53 + 1\<close> lies half-way between the doubles \<open>2^53\<close> and
  \<open>2^53 + 2\<close> and is rounded to the first: the counter stays.
\<close>

lemma fl_pow53_1: "fl (2 ^ 53 + 1) = 2 ^ 53"
  by code_simp

lemma addOne_saturates: "addOne 9007199254740992 = 9007199254740992"
proof -
  have e: "(9007199254740992 :: int) = 2 ^ 53" by simp
  have "isNumber (2 ^ 53)" by (rule isNumber_small) simp
  moreover have "\<lfloor>fl (of_int (2 ^ 53) + 1)\<rfloor> = (2 ^ 53 :: int)"
    using fl_pow53_1 by simp
  ultimately have "addOne (2 ^ 53) = 2 ^ 53" by (simp only: addOne_def if_True)
  then show ?thesis by (simp only: e)
qed

text \<open>
  The comparison \<open>now - lastVisit > oneDayMs\<close> is made on the rounded difference; it
  is the comparison of the integers, because one day and one day plus a millisecond
  are doubles and rounding is monotone.
\<close>

lemma oneDay_comparison:
  "of_int oneDayMs < fl (of_int (now - lastVisit p)) \<longleftrightarrow> oneDayMs < now - lastVisit p"
proof
  assume a: "oneDayMs < now - lastVisit p"
  have "fl (of_int (oneDayMs + 1)) = of_int (oneDayMs + 1)"
    by (rule fl_of_int) (simp add: oneDayMs_def)
  moreover from a have "(of_int (oneDayMs + 1) :: rat) \<le> of_int (now - lastVisit p)"
    by (simp only: of_int_le_iff)
  ultimately have "(of_int (oneDayMs + 1) :: rat) \<le> fl (of_int (now - lastVisit p))"
    by (rule fl_mono_rep)
  then show "of_int oneDayMs < fl (of_int (now - lastVisit p))" by simp
next
  assume a: "of_int oneDayMs < fl (of_int (now - lastVisit p))"
  show "oneDayMs < now - lastVisit p"
  proof (rule ccontr)
    assume "\<not> oneDayMs < now - lastVisit p"
    then have "(of_int (now - lastVisit p) :: rat) \<le> of_int oneDayMs"
      by (simp only: of_int_le_iff)
    moreover have "fl (of_int oneDayMs) = of_int oneDayMs"
      by (rule fl_of_int) (simp add: oneDayMs_def)
    ultimately have "fl (of_int (now - lastVisit p)) \<le> of_int oneDayMs"
      by (rule fl_mono_rep_le [rotated])
    with a show False by simp
  qed
qed

section \<open>Adding a task\<close>

lemma trim_Nil_iff: "trim s = [] \<longleftrightarrow> (\<forall>c \<in> set s. isWhiteSpace c)"
proof (cases "dropWhile isWhiteSpace s")
  case Nil
  have "trim s = []" unfolding trim_def Nil by simp
  moreover from Nil have "\<forall>c \<in> set s. isWhiteSpace c"
    by (simp add: dropWhile_eq_Nil_conv)
  ultimately show ?thesis by simp
next
  case (Cons y ys)
  have y: "\<not> isWhiteSpace y"
    using hd_dropWhile [of isWhiteSpace s] Cons by simp
  have "y \<in> set s"
    using set_dropWhileD [of y isWhiteSpace s] Cons by simp
  with y have "\<not> (\<forall>c \<in> set s. isWhiteSpace c)" by blast
  moreover have "trim s \<noteq> []"
    unfolding trim_def Cons using y by (auto simp: dropWhile_eq_Nil_conv)
  ultimately show ?thesis by simp
qed

lemma trim_buy_milk: "trim (js ''  Buy milk '') = js ''Buy milk''"
  by (simp add: trim_def js_def isWhiteSpace_def)

lemma trim_blank: "trim (js ''   '') = []"
  by (simp add: trim_def js_def isWhiteSpace_def)

text \<open>
  C1 (as amended). When the trimmed input is not empty, \<open>addTodo\<close> appends exactly one
  record to the end of the list, with the trimmed text and \<open>completed = false\<close>, and
  adds 1 to \<open>todosCreated\<close> provided \<open>|todosCreated| < 2^53\<close>, the range in which the
  addition of doubles is exact; when the trimmed input is empty, the list and
  \<open>todosCreated\<close> are unchanged.
\<close>

theorem addTodo_spec:
  "(trim (inputValue st) \<noteq> [] \<longrightarrow>
      todos (addTodo st now created) =
        todos st @ [\<lparr> todo_id = now, todo_text = trim (inputValue st),
                      completed = False, createdAt = created \<rparr>]
      \<and> length (todos (addTodo st now created)) = length (todos st) + 1
      \<and> (\<bar>todosCreated (analytics st)\<bar> < 2 ^ 53 \<longrightarrow>
           todosCreated (analytics (addTodo st now created)) = todosCreated (analytics st) + 1))
   \<and> (trim (inputValue st) = [] \<longrightarrow>
      todos (addTodo st now created) = todos st
      \<and> todosCreated (analytics (addTodo st now created)) = todosCreated (analytics st))"
  by (simp add: addTodo_def Let_def addOne_exact)

text \<open>
  With \<open>todosCreated = 2^53\<close> a task is appended and the counter stays at \<open>2^53\<close>.
\<close>

theorem addTodo_counterexample:
  "trim (inputValue saturatedState) \<noteq> []
   \<and> todosCreated (analytics (addTodo saturatedState 150 151))
       \<noteq> todosCreated (analytics saturatedState) + 1"
proof -
  have a: "trim (inputValue saturatedState) = js ''Buy milk''"
    by (simp add: saturatedState_def typed_def trim_def js_def isWhiteSpace_def)
  have c: "js ''Buy milk'' \<noteq> []"
    by (simp add: js_def)
  have t: "todosCreated (analytics saturatedState) = 9007199254740992"
    by (simp add: saturatedState_def saturated_def)
  have "todosCreated (analytics (addTodo saturatedState 150 151)) = 9007199254740992"
    using c by (simp add: addTodo_def a t addOne_saturates)
  with c show ?thesis by (simp add: a t)
qed

theorem addTodo_spec_witness:
  "trim (inputValue (typed ''  Buy milk '')) \<noteq> []
   \<and> \<bar>todosCreated (analytics (typed ''  Buy milk ''))\<bar> < 2 ^ 53
   \<and> todos (addTodo (typed ''  Buy milk '') 150 151) =
        [\<lparr> todo_id = 150, todo_text = js ''Buy milk'', completed = False, createdAt = 151 \<rparr>]
   \<and> todosCreated (analytics (addTodo (typed ''  Buy milk '') 150 151)) = 1
   \<and> trim (inputValue (typed ''   '')) = []
   \<and> todos (addTodo (typed ''   '') 150 151) = []
   \<and> todosCreated (analytics (addTodo (typed ''   '') 150 151)) = 0"
proof -
  have a: "trim (inputValue (typed ''  Buy milk '')) = js ''Buy milk''"
    by (simp add: typed_def trim_buy_milk)
  have b: "trim (inputValue (typed ''   '')) = []"
    by (simp add: typed_def trim_blank)
  have c: "js ''Buy milk'' \<noteq> []"
    by (simp add: js_def)
  show ?thesis
    using addTodo_spec [of "typed ''  Buy milk ''" 150 151] addTodo_spec [of "typed ''   ''" 150 151]
    unfolding a b using c
    by (simp add: typed_def initialState_def initialAnalytics_def)
qed

section \<open>Toggling a task\<close>

lemma toggleMap_fst:
  "fst (toggleMap i ts a) =
     map (\<lambda>todo. if todo_id todo = i then todo \<lparr> completed := \<not> completed todo \<rparr> else todo) ts"
  by (induction ts arbitrary: a) (simp_all add: Let_def case_prod_beta)

text \<open>The counter is incremented once for every matching task that is not completed.\<close>

lemma toggleMap_snd:
  "snd (toggleMap i ts a) =
     a \<lparr> todosCompleted :=
           (addOne ^^ length (filter (\<lambda>todo. todo_id todo = i \<and> \<not> completed todo) ts))
             (todosCompleted a) \<rparr>"
  by (induction ts arbitrary: a) (simp_all add: Let_def case_prod_beta funpow_swap1)

lemma todos_toggleTodo:
  "todos (toggleTodo st i) =
     map (\<lambda>todo. if todo_id todo = i then todo \<lparr> completed := \<not> completed todo \<rparr> else todo) (todos st)"
  using toggleMap_fst [of i "todos st" "analytics st"]
  by (simp add: toggleTodo_def case_prod_beta)

lemma analytics_toggleTodo:
  "analytics (toggleTodo st i) =
     (analytics st) \<lparr> todosCompleted :=
        (addOne ^^ length (filter (\<lambda>todo. todo_id todo = i \<and> \<not> completed todo) (todos st)))
          (todosCompleted (analytics st)) \<rparr>"
  using toggleMap_snd [of i "todos st" "analytics st"]
  by (simp add: toggleTodo_def case_prod_beta)

lemma todos_toggleTodo_twice: "todos (toggleTodo (toggleTodo st i) i) = todos st"
  by (simp add: todos_toggleTodo map_idI)

lemma filter_distinct_key:
  "distinct (map f xs) \<Longrightarrow> x \<in> set xs \<Longrightarrow> filter (\<lambda>u. f u = f x) xs = [x]"
proof (induction xs)
  case Nil
  then show ?case by simp
next
  case (Cons y ys)
  show ?case
  proof (cases "y = x")
    case True
    with Cons.prems have "f x \<notin> f ` set ys" by simp
    then have "\<forall>u \<in> set ys. f u \<noteq> f x" by (metis imageI)
    then have "filter (\<lambda>u. f u = f x) ys = []" by (simp add: filter_empty_conv)
    with True show ?thesis by simp
  next
    case False
    with Cons.prems have "x \<in> set ys" and "f y \<noteq> f x" by auto
    with Cons show ?thesis by simp
  qed
qed

lemma completedCount_map:
  "length (filter (\<lambda>todo. todo_id todo = i \<and> \<not> completed todo)
      (map (\<lambda>todo. if todo_id todo = i then todo \<lparr> completed := \<not> completed todo \<rparr> else todo) ts))
   = length (filter (\<lambda>todo. todo_id todo = i \<and> completed todo) ts)"
  by (induction ts) auto

lemma completedCount_toggled:
  "length (filter (\<lambda>todo. todo_id todo = i \<and> \<not> completed todo) (todos (toggleTodo st i)))
   = length (filter (\<lambda>todo. todo_id todo = i \<and> completed todo) (todos st))"
  unfolding todos_toggleTodo by (rule completedCount_map)

lemma length_filter_split:
  "length (filter (\<lambda>x. P x \<and> \<not> Q x) xs) + length (filter (\<lambda>x. P x \<and> Q x) xs)
   = length (filter P xs)"
  by (induction xs) auto

text \<open>
  Without any assumption on the ids or on the size of the counter: one application
  increments \<open>todosCompleted\<close> once for every matching task that was not completed,
  two applications increment it once for every matching task.
\<close>

lemma todosCompleted_toggleTodo:
  "todosCompleted (analytics (toggleTodo st i))
   = (addOne ^^ length (filter (\<lambda>todo. todo_id todo = i \<and> \<not> completed todo) (todos st)))
       (todosCompleted (analytics st))"
  by (simp add: analytics_toggleTodo)

lemma todosCompleted_toggleTodo_twice:
  "todosCompleted (analytics (toggleTodo (toggleTodo st i) i))
   = (addOne ^^ length (filter (\<lambda>todo. todo_id todo = i) (todos st)))
       (todosCompleted (analytics st))"
proof -
  define k1 where "k1 = length (filter (\<lambda>todo. todo_id todo = i \<and> \<not> completed todo) (todos st))"
  define k2 where "k2 = length (filter (\<lambda>todo. todo_id todo = i \<and> completed todo) (todos st))"
  have k: "length (filter (\<lambda>todo. todo_id todo = i) (todos st)) = k2 + k1"
    using length_filter_split [of "\<lambda>todo. todo_id todo = i" completed "todos st"]
    by (simp add: k1_def k2_def)
  have "todosCompleted (analytics (toggleTodo (toggleTodo st i) i))
        = (addOne ^^ k2) (todosCompleted (analytics (toggleTodo st i)))"
    by (simp only: todosCompleted_toggleTodo [of "toggleTodo st i"] completedCount_toggled k2_def)
  also have "\<dots> = (addOne ^^ k2) ((addOne ^^ k1) (todosCompleted (analytics st)))"
    by (simp only: todosCompleted_toggleTodo [of st] k1_def)
  also have "\<dots> = (addOne ^^ (k2 + k1)) (todosCompleted (analytics st))"
    by (simp add: funpow_add)
  finally show ?thesis by (simp only: k)
qed

lemma todosCompleted_toggleTodo_bounded:
  assumes "\<bar>todosCompleted (analytics st)\<bar>
             + int (length (filter (\<lambda>u. todo_id u = i) (todos st))) < 2 ^ 53"
  shows "todosCompleted (analytics (toggleTodo st i))
           = todosCompleted (analytics st)
             + int (length (filter (\<lambda>u. todo_id u = i \<and> \<not> completed u) (todos st)))"
    and "todosCompleted (analytics (toggleTodo (toggleTodo st i) i))
           = todosCompleted (analytics st) + int (length (filter (\<lambda>u. todo_id u = i) (todos st)))"
proof -
  have "length (filter (\<lambda>u. todo_id u = i \<and> \<not> completed u) (todos st))
        \<le> length (filter (\<lambda>u. todo_id u = i) (todos st))"
    using length_filter_split [of "\<lambda>todo. todo_id todo = i" completed "todos st"] by simp
  with assms have "\<bar>todosCompleted (analytics st)\<bar>
             + int (length (filter (\<lambda>u. todo_id u = i \<and> \<not> completed u) (todos st))) < 2 ^ 53"
    by linarith
  then show "todosCompleted (analytics (toggleTodo st i))
           = todosCompleted (analytics st)
             + int (length (filter (\<lambda>u. todo_id u = i \<and> \<not> completed u) (todos st)))"
    by (simp only: todosCompleted_toggleTodo addOne_funpow)
  from assms
  show "todosCompleted (analytics (toggleTodo (toggleTodo st i) i))
           = todosCompleted (analytics st) + int (length (filter (\<lambda>u. todo_id u = i) (todos st)))"
    by (simp only: todosCompleted_toggleTodo_twice addOne_funpow)
qed

lemma toggleTodo_twice_distinct:
  assumes "distinct (map todo_id (todos st))" and "todo \<in> set (todos st)"
  shows "map completed (filter (\<lambda>u. todo_id u = todo_id todo) (todos (toggleTodo st (todo_id todo))))
         = [\<not> completed todo]"
    and "\<bar>todosCompleted (analytics st)\<bar> < 2 ^ 53 \<Longrightarrow>
         todosCompleted (analytics (toggleTodo st (todo_id todo)))
         = todosCompleted (analytics st) + (if completed todo then 0 else 1)"
    and "\<bar>todosCompleted (analytics st)\<bar> < 2 ^ 53 \<Longrightarrow>
         todosCompleted (analytics (toggleTodo (toggleTodo st (todo_id todo)) (todo_id todo)))
         = todosCompleted (analytics (toggleTodo st (todo_id todo))) + (if completed todo then 1 else 0)"
    and "\<bar>todosCompleted (analytics st)\<bar> < 2 ^ 53 \<Longrightarrow>
         todosCompleted (analytics (toggleTodo (toggleTodo st (todo_id todo)) (todo_id todo)))
         = todosCompleted (analytics st) + 1"
proof -
  let ?i = "todo_id todo"
  have one: "filter (\<lambda>u. todo_id u = ?i) (todos st) = [todo]"
    using assms by (rule filter_distinct_key)
  have "filter (\<lambda>u. todo_id u = ?i \<and> \<not> completed u) (todos st)
        = filter (\<lambda>u. \<not> completed u) (filter (\<lambda>u. todo_id u = ?i) (todos st))"
    by simp
  then have inc: "filter (\<lambda>u. todo_id u = ?i \<and> \<not> completed u) (todos st)
             = (if completed todo then [] else [todo])"
    by (simp only: one) simp
  show "map completed (filter (\<lambda>u. todo_id u = ?i) (todos (toggleTodo st ?i))) = [\<not> completed todo]"
    using one by (simp add: todos_toggleTodo filter_map comp_def if_distrib [of todo_id])
  assume b: "\<bar>todosCompleted (analytics st)\<bar> < 2 ^ 53"
  show a1: "todosCompleted (analytics (toggleTodo st ?i))
         = todosCompleted (analytics st) + (if completed todo then 0 else 1)"
    using b by (simp add: todosCompleted_toggleTodo inc addOne_exact)
  show a3: "todosCompleted (analytics (toggleTodo (toggleTodo st ?i) ?i))
         = todosCompleted (analytics st) + 1"
    using b by (simp add: todosCompleted_toggleTodo_twice one addOne_exact)
  show "todosCompleted (analytics (toggleTodo (toggleTodo st ?i) ?i))
         = todosCompleted (analytics (toggleTodo st ?i)) + (if completed todo then 1 else 0)"
    using a1 a3 by simp
qed

text \<open>
  C2 (as amended). For every list and every id, toggling the id twice gives back the
  original list, so every \<open>completed\<close> flag returns to its original value. As long as
  \<open>todosCompleted\<close> stays below \<open>2^53\<close> in magnitude, one application adds to it one
  for each task with that id that is not completed before it (the transition from
  false to true) and nothing for the others; two applications together add the
  number of tasks with that id. For a list with distinct ids that holds the id this is
  exactly 1 whatever the starting flag: counted in the first application when the task
  started incomplete, in the second when it started completed.
\<close>

theorem toggleTodo_twice:
  "todos (toggleTodo (toggleTodo st i) i) = todos st
   \<and> (\<bar>todosCompleted (analytics st)\<bar>
        + int (length (filter (\<lambda>u. todo_id u = i) (todos st))) < 2 ^ 53 \<longrightarrow>
        todosCompleted (analytics (toggleTodo st i))
          = todosCompleted (analytics st)
            + int (length (filter (\<lambda>u. todo_id u = i \<and> \<not> completed u) (todos st)))
        \<and> todosCompleted (analytics (toggleTodo (toggleTodo st i) i))
          = todosCompleted (analytics st) + int (length (filter (\<lambda>u. todo_id u = i) (todos st))))
   \<and> (distinct (map todo_id (todos st)) \<and> todo \<in> set (todos st) \<and> todo_id todo = i \<longrightarrow>
        map completed (filter (\<lambda>u. todo_id u = i) (todos (toggleTodo st i))) = [\<not> completed todo]
        \<and> (\<bar>todosCompleted (analytics st)\<bar> < 2 ^ 53 \<longrightarrow>
             todosCompleted (analytics (toggleTodo st i))
               = todosCompleted (analytics st) + (if completed todo then 0 else 1)
             \<and> todosCompleted (analytics (toggleTodo (toggleTodo st i) i))
               = todosCompleted (analytics (toggleTodo st i)) + (if completed todo then 1 else 0)
             \<and> todosCompleted (analytics (toggleTodo (toggleTodo st i) i))
               = todosCompleted (analytics st) + 1))"
proof -
  have 1: "todos (toggleTodo (toggleTodo st i) i) = todos st"
    by (rule todos_toggleTodo_twice)
  have 2: "todosCompleted (analytics (toggleTodo st i))
          = todosCompleted (analytics st)
            + int (length (filter (\<lambda>u. todo_id u = i \<and> \<not> completed u) (todos st)))
        \<and> todosCompleted (analytics (toggleTodo (toggleTodo st i) i))
          = todosCompleted (analytics st) + int (length (filter (\<lambda>u. todo_id u = i) (todos st)))"
    if "\<bar>todosCompleted (analytics st)\<bar>
        + int (length (filter (\<lambda>u. todo_id u = i) (todos st))) < 2 ^ 53"
    using todosCompleted_toggleTodo_bounded [OF that] by simp
  have 3: "map completed (filter (\<lambda>u. todo_id u = i) (todos (toggleTodo st i))) = [\<not> completed todo]"
    if "distinct (map todo_id (todos st))" and "todo \<in> set (todos st)" and "todo_id todo = i"
    using toggleTodo_twice_distinct(1) [OF that(1,2)] that(3) by simp
  have 4: "todosCompleted (analytics (toggleTodo st i))
               = todosCompleted (analytics st) + (if completed todo then 0 else 1)
             \<and> todosCompleted (analytics (toggleTodo (toggleTodo st i) i))
               = todosCompleted (analytics (toggleTodo st i)) + (if completed todo then 1 else 0)
             \<and> todosCompleted (analytics (toggleTodo (toggleTodo st i) i))
               = todosCompleted (analytics st) + 1"
    if "distinct (map todo_id (todos st))" and "todo \<in> set (todos st)" and "todo_id todo = i"
      and "\<bar>todosCompleted (analytics st)\<bar> < 2 ^ 53"
    using toggleTodo_twice_distinct(2,3,4) [OF that(1,2,4)] that(3) by simp
  from 1 2 3 4 show ?thesis by blast
qed

text \<open>
  The claim as stated fails for a task that starts completed: the first application
  resets the flag without counting, the second sets it again and counts.
\<close>

theorem toggleTodo_twice_counterexample:
  "\<not> (todosCompleted (analytics (toggleTodo (toggleTodo (withTodos [doneTask]) 1) 1))
        = todosCompleted (analytics (withTodos [doneTask])) + 1
      \<longleftrightarrow> \<not> completed doneTask)"
  by (simp add: toggleTodo_def withTodos_def doneTask_def initialState_def initialAnalytics_def
      addOne_exact)

text \<open>With \<open>todosCompleted = 2^53\<close> the task is completed and the counter stays.\<close>

lemma toggleTodo_saturated:
  "todos (toggleTodo saturatedState 1) = [buyMilk \<lparr> completed := True \<rparr>]
   \<and> todosCompleted (analytics (toggleTodo saturatedState 1)) = todosCompleted (analytics saturatedState)"
  by (simp add: toggleTodo_def saturatedState_def saturated_def buyMilk_def addOne_saturates)

theorem toggleTodo_twice_witness:
  "distinct (map todo_id (todos (withTodos [buyMilk, walkDog])))
   \<and> buyMilk \<in> set (todos (withTodos [buyMilk, walkDog]))
   \<and> todo_id buyMilk = 1
   \<and> \<bar>todosCompleted (analytics (withTodos [buyMilk, walkDog]))\<bar>
        + int (length (filter (\<lambda>u. todo_id u = 1) (todos (withTodos [buyMilk, walkDog])))) < 2 ^ 53
   \<and> \<bar>todosCompleted (analytics (withTodos [buyMilk, walkDog]))\<bar> < 2 ^ 53
   \<and> todos (toggleTodo (toggleTodo (withTodos [buyMilk, walkDog]) 1) 1) = [buyMilk, walkDog]
   \<and> todosCompleted (analytics (toggleTodo (withTodos [buyMilk, walkDog]) 1)) = 1
   \<and> todosCompleted (analytics (toggleTodo (toggleTodo (withTodos [buyMilk, walkDog]) 1) 1)) = 1"
proof -
  have d: "distinct (map todo_id (todos (withTodos [buyMilk, walkDog])))"
    by (simp add: withTodos_def buyMilk_def walkDog_def)
  have m: "buyMilk \<in> set (todos (withTodos [buyMilk, walkDog]))"
    by (simp add: withTodos_def)
  have i: "todo_id buyMilk = 1" "\<not> completed buyMilk"
    by (simp_all add: buyMilk_def)
  have z: "todosCompleted (analytics (withTodos [buyMilk, walkDog])) = 0"
     "todos (withTodos [buyMilk, walkDog]) = [buyMilk, walkDog]"
    by (simp_all add: withTodos_def initialState_def initialAnalytics_def)
  have n: "length (filter (\<lambda>u. todo_id u = 1) [buyMilk, walkDog]) = 1"
    by (simp add: buyMilk_def walkDog_def)
  have h: "\<bar>0::int\<bar> + int 1 < 2 ^ 53" "\<bar>0::int\<bar> < 2 ^ 53"
    by simp_all
  note t = toggleTodo_twice [of "withTodos [buyMilk, walkDog]" 1 buyMilk]
  from t have r: "todos (toggleTodo (toggleTodo (withTodos [buyMilk, walkDog]) 1) 1) = [buyMilk, walkDog]"
    unfolding z by blast
  from t d m i h
  have a: "todosCompleted (analytics (toggleTodo (withTodos [buyMilk, walkDog]) 1))
            = 0 + (if completed buyMilk then 0 else 1)"
    and b: "todosCompleted (analytics (toggleTodo (toggleTodo (withTodos [buyMilk, walkDog]) 1) 1))
            = 0 + 1"
    unfolding z by blast+
  from d m i r a b h show ?thesis unfolding z n by simp
qed

section \<open>Deleting a task\<close>

lemma length_deleteTodo:
  "length (todos (deleteTodo st i)) + length (filter (\<lambda>todo. todo_id todo = i) (todos st))
   = length (todos st)"
  using sum_length_filter_compl [of "\<lambda>todo. todo_id todo \<noteq> i" "todos st"]
  by (simp add: deleteTodo_def)

lemma length_filter_distinct_key:
  "distinct (map f xs) \<Longrightarrow> length (filter (\<lambda>u. f u = k) xs) \<le> 1"
proof (cases "k \<in> f ` set xs")
  case True
  assume d: "distinct (map f xs)"
  from True obtain x where "x \<in> set xs" and "k = f x" by blast
  with d show ?thesis by (simp add: filter_distinct_key)
next
  case False
  then have "\<forall>u \<in> set xs. f u \<noteq> k" by blast
  then have "filter (\<lambda>u. f u = k) xs = []" by (simp add: filter_empty_conv)
  then show ?thesis by simp
qed

text \<open>
  C3 (as amended). \<open>deleteTodo\<close> shortens the list by exactly the number of tasks
  whose id is the given one: by nothing when no task has that id, and by at most 1
  when the ids of the list are distinct. Whether or not a task has the id, it adds 1
  to \<open>todosDeleted\<close>, provided \<open>|todosDeleted| < 2^53\<close>, the range in which the addition
  of doubles is exact.
\<close>

theorem deleteTodo_spec:
  "length (todos st) - length (todos (deleteTodo st i))
     = length (filter (\<lambda>todo. todo_id todo = i) (todos st))
   \<and> (i \<notin> todo_id ` set (todos st) \<longrightarrow> todos (deleteTodo st i) = todos st)
   \<and> (distinct (map todo_id (todos st)) \<longrightarrow>
        length (todos st) - length (todos (deleteTodo st i)) \<le> 1)
   \<and> (\<bar>todosDeleted (analytics st)\<bar> < 2 ^ 53 \<longrightarrow>
        todosDeleted (analytics (deleteTodo st i)) = todosDeleted (analytics st) + 1)"
proof -
  have l: "length (todos st) - length (todos (deleteTodo st i))
     = length (filter (\<lambda>todo. todo_id todo = i) (todos st))"
    using length_deleteTodo [of st i] by simp
  have a: "i \<notin> todo_id ` set (todos st) \<Longrightarrow> todos (deleteTodo st i) = todos st"
    by (auto simp: deleteTodo_def filter_id_conv)
  have d: "distinct (map todo_id (todos st)) \<Longrightarrow>
        length (todos st) - length (todos (deleteTodo st i)) \<le> 1"
    unfolding l by (rule length_filter_distinct_key)
  have c: "\<bar>todosDeleted (analytics st)\<bar> < 2 ^ 53 \<Longrightarrow>
        todosDeleted (analytics (deleteTodo st i)) = todosDeleted (analytics st) + 1"
    by (simp add: deleteTodo_def addOne_exact)
  from l a d c show ?thesis by blast
qed

text \<open>With two tasks of the same id the list gets shorter by 2.\<close>

theorem deleteTodo_counterexample:
  "\<not> length (todos (withTodos [buyMilk, milkTwin]))
        - length (todos (deleteTodo (withTodos [buyMilk, milkTwin]) 1)) \<le> 1"
  by (simp add: deleteTodo_def withTodos_def buyMilk_def milkTwin_def)

text \<open>With \<open>todosDeleted = 2^53\<close> the task is removed and the counter stays.\<close>

lemma deleteTodo_saturated:
  "todos (deleteTodo saturatedState 1) = []
   \<and> todosDeleted (analytics (deleteTodo saturatedState 1)) = todosDeleted (analytics saturatedState)"
  by (simp add: deleteTodo_def saturatedState_def saturated_def buyMilk_def addOne_saturates)

theorem deleteTodo_spec_witness:
  "3 \<notin> todo_id ` set (todos (withTodos [buyMilk, walkDog]))
   \<and> \<bar>todosDeleted (analytics (withTodos [buyMilk, walkDog]))\<bar> < 2 ^ 53
   \<and> todos (deleteTodo (withTodos [buyMilk, walkDog]) 3) = [buyMilk, walkDog]
   \<and> todosDeleted (analytics (deleteTodo (withTodos [buyMilk, walkDog]) 3)) = 1
   \<and> distinct (map todo_id (todos (withTodos [buyMilk, walkDog])))
   \<and> length (todos (withTodos [buyMilk, walkDog]))
        - length (todos (deleteTodo (withTodos [buyMilk, walkDog]) 1)) \<le> 1"
proof -
  have n: "3 \<notin> todo_id ` set (todos (withTodos [buyMilk, walkDog]))"
    by (simp add: withTodos_def buyMilk_def walkDog_def)
  have d: "distinct (map todo_id (todos (withTodos [buyMilk, walkDog])))"
    by (simp add: withTodos_def buyMilk_def walkDog_def)
  have z: "todos (withTodos [buyMilk, walkDog]) = [buyMilk, walkDog]"
      "todosDeleted (analytics (withTodos [buyMilk, walkDog])) = 0"
    by (simp_all add: withTodos_def initialState_def initialAnalytics_def)
  from deleteTodo_spec [of "withTodos [buyMilk, walkDog]" 3]
       deleteTodo_spec [of "withTodos [buyMilk, walkDog]" 1] n d
  show ?thesis unfolding z by simp
qed

text \<open>
  C9. \<open>deleteTodo\<close> removes every task whose id is the given one: no task of the new
  list has that id, all other tasks stay, and when two or more tasks share the id the
  list gets shorter by more than 1.
\<close>

theorem deleteTodo_removes_all:
  "i \<notin> todo_id ` set (todos (deleteTodo st i))
   \<and> set (todos (deleteTodo st i)) = {todo \<in> set (todos st). todo_id todo \<noteq> i}
   \<and> (2 \<le> length (filter (\<lambda>todo. todo_id todo = i) (todos st)) \<longrightarrow>
        length (todos st) - length (todos (deleteTodo st i)) > 1)"
  using length_deleteTodo [of st i] by (auto simp: deleteTodo_def)

theorem deleteTodo_removes_all_witness:
  "2 \<le> length (filter (\<lambda>todo. todo_id todo = 1) (todos (withTodos [buyMilk, walkDog, milkTwin])))
   \<and> todos (deleteTodo (withTodos [buyMilk, walkDog, milkTwin]) 1) = [walkDog]
   \<and> length (todos (withTodos [buyMilk, walkDog, milkTwin]))
        - length (todos (deleteTodo (withTodos [buyMilk, walkDog, milkTwin]) 1)) > 1"
proof -
  have h: "2 \<le> length (filter (\<lambda>todo. todo_id todo = 1) (todos (withTodos [buyMilk, walkDog, milkTwin])))"
    by (simp add: withTodos_def buyMilk_def walkDog_def milkTwin_def)
  have t: "todos (deleteTodo (withTodos [buyMilk, walkDog, milkTwin]) 1) = [walkDog]"
    by (simp add: deleteTodo_def withTodos_def buyMilk_def walkDog_def milkTwin_def)
  from deleteTodo_removes_all [of 1 "withTodos [buyMilk, walkDog, milkTwin]"] h t
  show ?thesis by blast
qed


section \<open>The filtered view\<close>

lemma count_list_filter:
  "count_list (filter P xs) x = (if P x then count_list xs x else 0)"
  by (induction xs) auto

text \<open>
  C4. With the filter \<open>all\<close> the view is the whole list; with \<open>active\<close> it holds exactly
  the tasks that are not completed, with \<open>completed\<close> exactly the completed ones, each
  as often as the list holds it. In all three cases the view is a subsequence of the
  list, so the insertion order is kept.
\<close>

theorem filteredTodos_spec:
  "(filter_sel st = All \<longrightarrow> filteredTodos st = todos st)
   \<and> (filter_sel st = Active \<longrightarrow>
        set (filteredTodos st) = {todo \<in> set (todos st). \<not> completed todo}
        \<and> (\<forall>todo. count_list (filteredTodos st) todo
                    = (if completed todo then 0 else count_list (todos st) todo)))
   \<and> (filter_sel st = Completed \<longrightarrow>
        set (filteredTodos st) = {todo \<in> set (todos st). completed todo}
        \<and> (\<forall>todo. count_list (filteredTodos st) todo
                    = (if completed todo then count_list (todos st) todo else 0)))
   \<and> subseq (filteredTodos st) (todos st)"
  by (cases "filter_sel st") (auto simp: filteredTodos_def count_list_filter)

lemma scenario_todos:
  "todos scenario = [buyMilk \<lparr> completed := True \<rparr>, walkDog]"
  by (simp add: scenario_def toggleTodo_def addTodo_def typed_def initialState_def
      buyMilk_def walkDog_def trim_def js_def isWhiteSpace_def Let_def)

theorem filteredTodos_spec_witness:
  "filter_sel (scenario \<lparr> filter_sel := Active \<rparr>) = Active
   \<and> filteredTodos (scenario \<lparr> filter_sel := Active \<rparr>) = [walkDog]
   \<and> set (filteredTodos (scenario \<lparr> filter_sel := Active \<rparr>)) = {walkDog}
   \<and> filter_sel (scenario \<lparr> filter_sel := Completed \<rparr>) = Completed
   \<and> filteredTodos (scenario \<lparr> filter_sel := Completed \<rparr>) = [buyMilk \<lparr> completed := True \<rparr>]
   \<and> set (filteredTodos (scenario \<lparr> filter_sel := Completed \<rparr>)) = {buyMilk \<lparr> completed := True \<rparr>}
   \<and> filter_sel (scenario \<lparr> filter_sel := All \<rparr>) = All
   \<and> filteredTodos (scenario \<lparr> filter_sel := All \<rparr>) = todos scenario"
proof -
  have a: "filteredTodos (scenario \<lparr> filter_sel := Active \<rparr>) = [walkDog]"
    by (simp add: filteredTodos_def scenario_todos) (simp add: buyMilk_def walkDog_def)
  have c: "filteredTodos (scenario \<lparr> filter_sel := Completed \<rparr>) = [buyMilk \<lparr> completed := True \<rparr>]"
    by (simp add: filteredTodos_def scenario_todos) (simp add: buyMilk_def walkDog_def)
  from filteredTodos_spec [of "scenario \<lparr> filter_sel := Active \<rparr>"]
       filteredTodos_spec [of "scenario \<lparr> filter_sel := Completed \<rparr>"]
       filteredTodos_spec [of "scenario \<lparr> filter_sel := All \<rparr>"]
  show ?thesis unfolding a c by simp
qed

section \<open>Session start\<close>

text \<open>
  C5 (as amended). Without a persisted record the page load gives \<open>totalVisitors = 1\<close>,
  \<open>pageViews = 1\<close>, \<open>sessionsCount = 1\<close>, \<open>lastVisit = now\<close> and the other counters 0;
  \<open>sessionStart\<close> is the clock value \<open>t0\<close> read when the component state was created,
  not the value \<open>now\<close> read in the effect. With a persisted record \<open>p\<close> it gives
  \<open>sessionStart = lastVisit = now\<close> and the three task counters of \<open>p\<close>; and, provided
  \<open>pageViews\<close>, \<open>sessionsCount\<close> and \<open>totalVisitors\<close> of \<open>p\<close> are below \<open>2^53\<close> in
  magnitude, \<open>pageViews\<close> and \<open>sessionsCount\<close> of \<open>p\<close> plus 1, and \<open>totalVisitors\<close> plus 1
  exactly when \<open>now - lastVisit p > 86400000\<close>.
\<close>

theorem pageLoad_analytics:
  "analytics (pageLoad t0 savedTodos None now) =
     \<lparr> totalVisitors = 1, pageViews = 1, sessionStart = t0, lastVisit = now,
       todosCreated = 0, todosCompleted = 0, todosDeleted = 0, sessionsCount = 1 \<rparr>
   \<and> sessionStart (analytics (pageLoad t0 savedTodos (Some (p :: Analytics)) now)) = now
   \<and> lastVisit (analytics (pageLoad t0 savedTodos (Some p) now)) = now
   \<and> todosCreated (analytics (pageLoad t0 savedTodos (Some p) now)) = todosCreated p
   \<and> todosCompleted (analytics (pageLoad t0 savedTodos (Some p) now)) = todosCompleted p
   \<and> todosDeleted (analytics (pageLoad t0 savedTodos (Some p) now)) = todosDeleted p
   \<and> (\<bar>pageViews p\<bar> < 2 ^ 53 \<and> \<bar>sessionsCount p\<bar> < 2 ^ 53 \<and> \<bar>totalVisitors p\<bar> < 2 ^ 53 \<longrightarrow>
        analytics (pageLoad t0 savedTodos (Some p) now) =
          \<lparr> totalVisitors = (if now - lastVisit p > 86400000 then totalVisitors p + 1
                             else totalVisitors p),
            pageViews = pageViews p + 1, sessionStart = now, lastVisit = now,
            todosCreated = todosCreated p, todosCompleted = todosCompleted p,
            todosDeleted = todosDeleted p, sessionsCount = sessionsCount p + 1 \<rparr>)"
  by (simp add: pageLoad_def loadEffect_def loadAnalytics_def initialState_def
      initialAnalytics_def oneDayMs_def Let_def addOne_exact)

text \<open>When the clock advances between the first render and the effect, \<open>sessionStart\<close> is not \<open>now\<close>.\<close>

theorem pageLoad_sessionStart_counterexample:
  "sessionStart (analytics (pageLoad 1000 None None 1005)) \<noteq> 1005"
  by (simp add: pageLoad_def loadEffect_def loadAnalytics_def initialState_def
      initialAnalytics_def)

text \<open>A persisted record with counters \<open>2^53\<close> comes back with the same counters.\<close>

lemma pageLoad_saturated:
  "pageViews (analytics (pageLoad 1000 None (Some saturated) 1005)) = pageViews saturated
   \<and> sessionsCount (analytics (pageLoad 1000 None (Some saturated) 1005)) = sessionsCount saturated"
  by (simp add: pageLoad_def loadEffect_def loadAnalytics_def saturated_def Let_def
      addOne_saturates)

text \<open>A second page load one second after the first.\<close>

theorem pageLoad_analytics_witness:
  "\<bar>pageViews (session 1000 3)\<bar> < 2 ^ 53 \<and> \<bar>sessionsCount (session 1000 3)\<bar> < 2 ^ 53
   \<and> \<bar>totalVisitors (session 1000 3)\<bar> < 2 ^ 53
   \<and> analytics (pageLoad 1990 None (Some (session 1000 3)) 2000) =
       \<lparr> totalVisitors = 1, pageViews = 2, sessionStart = 2000, lastVisit = 2000,
         todosCreated = 0, todosCompleted = 0, todosDeleted = 0, sessionsCount = 4 \<rparr>"
proof -
  have h: "\<bar>pageViews (session 1000 3)\<bar> < 2 ^ 53" "\<bar>sessionsCount (session 1000 3)\<bar> < 2 ^ 53"
      "\<bar>totalVisitors (session 1000 3)\<bar> < 2 ^ 53"
    by (simp_all add: session_def)
  from pageLoad_analytics [of 1990 None 2000 "session 1000 3"] h
  have "analytics (pageLoad 1990 None (Some (session 1000 3)) 2000) =
          \<lparr> totalVisitors = (if 2000 - lastVisit (session 1000 3) > 86400000
                             then totalVisitors (session 1000 3) + 1
                             else totalVisitors (session 1000 3)),
            pageViews = pageViews (session 1000 3) + 1, sessionStart = 2000, lastVisit = 2000,
            todosCreated = todosCreated (session 1000 3),
            todosCompleted = todosCompleted (session 1000 3),
            todosDeleted = todosDeleted (session 1000 3),
            sessionsCount = sessionsCount (session 1000 3) + 1 \<rparr>"
    by blast
  then have "analytics (pageLoad 1990 None (Some (session 1000 3)) 2000) =
       \<lparr> totalVisitors = 1, pageViews = 2, sessionStart = 2000, lastVisit = 2000,
         todosCreated = 0, todosCompleted = 0, todosDeleted = 0, sessionsCount = 4 \<rparr>"
    by (simp add: session_def)
  with h show ?thesis by simp
qed

lemma second_load_within_hour:
  "now - lastVisit p \<le> 3600000 \<Longrightarrow>
   \<bar>pageViews p\<bar> < 2 ^ 53 \<Longrightarrow> \<bar>sessionsCount p\<bar> < 2 ^ 53 \<Longrightarrow>
   totalVisitors (analytics (pageLoad t0 sv (Some p) now)) = totalVisitors p
   \<and> pageViews (analytics (pageLoad t0 sv (Some p) now)) = pageViews p + 1
   \<and> sessionsCount (analytics (pageLoad t0 sv (Some p) now)) = sessionsCount p + 1"
  by (simp add: pageLoad_def loadEffect_def loadAnalytics_def oneDayMs_def Let_def addOne_exact)

section \<open>Monotone counters\<close>

text \<open>
  C7. None of the six counters decreases under \<open>addTodo\<close>, \<open>toggleTodo\<close>, \<open>deleteTodo\<close>
  or the session start (compared with the persisted record when there is one, with the
  initial record otherwise). The three task operations leave \<open>sessionStart\<close> and
  \<open>lastVisit\<close> as they are; only the session start overwrites them.
\<close>

theorem counters_monotone:
  "countersLe (analytics st) (analytics (addTodo st now created))
   \<and> countersLe (analytics st) (analytics (toggleTodo st i))
   \<and> countersLe (analytics st) (analytics (deleteTodo st i))
   \<and> countersLe p (analytics (loadEffect st savedTodos (Some p) now))
   \<and> countersLe (analytics (initialState t0)) (analytics (pageLoad t0 savedTodos None now))
   \<and> sessionStart (analytics (addTodo st now created)) = sessionStart (analytics st)
   \<and> lastVisit (analytics (addTodo st now created)) = lastVisit (analytics st)
   \<and> sessionStart (analytics (toggleTodo st i)) = sessionStart (analytics st)
   \<and> lastVisit (analytics (toggleTodo st i)) = lastVisit (analytics st)
   \<and> sessionStart (analytics (deleteTodo st i)) = sessionStart (analytics st)
   \<and> lastVisit (analytics (deleteTodo st i)) = lastVisit (analytics st)"
  by (simp add: countersLe_def addTodo_def analytics_toggleTodo deleteTodo_def loadEffect_def
      loadAnalytics_def pageLoad_def initialState_def initialAnalytics_def Let_def
      le_addOne le_funpow_addOne)


section \<open>Completion rate\<close>

lemma tiny_le: "(2::rat) powi (- 1022) \<le> 1 / 2 ^ 53"
  using powi_mono [of "- 1022" "- 53"] by (simp add: power_int_minus field_simps)

lemma rate_steps:
  fixes c t :: int
  assumes c0: "0 < c" and c: "c < 2 ^ 43" and t0: "0 < t" and t: "t < 2 ^ 53"
  defines "x1 \<equiv> (of_int c / of_int t :: rat)"
  defines "X \<equiv> (100 * of_int c / of_int t :: rat)"
  shows "round64 x1 = Fin (fl x1)"
    and "round64 (fl x1 * 100) = Fin (fl (fl x1 * 100))"
    and "\<bar>fl (fl x1 * 100) - X\<bar> \<le> 3 * X / 2 ^ 53"
proof -
  have tr: "(0::rat) < of_int t" "(1::rat) \<le> of_int t" using t0 by simp_all
  have cr: "(0::rat) < of_int c" "(of_int c :: rat) < 2 ^ 43"
    using c0 c of_int_less_iff [of c "2 ^ 43", where ?'a = rat] by simp_all
  have tb: "(of_int t :: rat) < 2 ^ 53"
    using t of_int_less_iff [of t "2 ^ 53", where ?'a = rat] by simp
  have x1pos: "0 < x1" using tr cr by (simp add: x1_def)
  have x1le: "x1 \<le> of_int c"
    using tr cr by (simp add: x1_def pos_divide_le_eq mult_le_cancel_left1)
  have x1ge: "1 / 2 ^ 53 \<le> x1"
  proof -
    have "(1::rat) / 2 ^ 53 \<le> 1 / of_int t" using tb tr by (simp add: frac_le)
    also have "\<dots> \<le> x1"
      using cr tr of_int_le_iff [of 1 c, where ?'a = rat] c0
      by (simp add: x1_def divide_right_mono)
    finally show ?thesis .
  qed
  have x1small: "\<bar>x1\<bar> < 2 ^ 53" using x1pos x1le cr by simp
  show r1: "round64 x1 = Fin (fl x1)" using x1small by (rule round64_small)
  define u where "u = (1::rat) / 2 ^ 53"
  have u0: "0 \<le> u" and u1: "u \<le> 1/2" by (simp_all add: u_def)
  have n1: "2 powi (- 1022) \<le> \<bar>x1\<bar>" using tiny_le x1ge x1pos by simp
  have e1: "\<bar>fl x1 - x1\<bar> \<le> x1 * u"
    using fl_rel_error [OF n1] x1pos by (simp add: u_def)
  define y1 where "y1 = fl x1"
  have y1lo: "x1 - x1 * u \<le> y1" and y1hi: "y1 \<le> x1 + x1 * u"
    using e1 unfolding y1_def by linarith+
  have y1c: "y1 \<le> of_int c" unfolding y1_def using x1small x1le by (rule fl_le_int)
  have x1u: "x1 * u \<le> x1 * (1/2)" using u1 x1pos by (simp only: mult_le_cancel_left_pos)
  have y1half: "x1 / 2 \<le> y1" using y1lo x1u by simp
  have y1pos: "0 < y1" using y1half x1pos by simp
  define x2 where "x2 = y1 * 100"
  have x2pos: "0 < x2" using y1pos by (simp add: x2_def)
  have x2small: "\<bar>x2\<bar> < 2 ^ 53" using y1c cr x2pos by (simp add: x2_def)
  show "round64 (fl x1 * 100) = Fin (fl (fl x1 * 100))"
    using x2small unfolding x2_def y1_def by (rule round64_small)
  have "x1 \<le> x2" using y1half x1pos by (simp add: x2_def)
  then have n2: "2 powi (- 1022) \<le> \<bar>x2\<bar>" using tiny_le x1ge x2pos by simp
  have e2: "\<bar>fl x2 - x2\<bar> \<le> x2 * u"
    using fl_rel_error [OF n2] x2pos by (simp add: u_def)
  have X: "X = 100 * x1" by (simp add: X_def x1_def)
  have Xu: "X * u = 100 * (x1 * u)" by (simp add: X)
  have Xpos: "0 < X" using x1pos by (simp add: X)
  have d1: "\<bar>x2 - X\<bar> \<le> X * u"
    using y1lo y1hi unfolding Xu X x2_def by linarith
  have "X * u \<le> X * (1/2)" using u1 Xpos by (simp only: mult_le_cancel_left_pos)
  with d1 Xpos have "x2 \<le> 2 * X" by linarith
  then have "x2 * u \<le> 2 * X * u" using u0 by (rule mult_right_mono)
  with e2 have d2: "\<bar>fl x2 - x2\<bar> \<le> 2 * X * u" by linarith
  have "\<bar>fl x2 - X\<bar> \<le> \<bar>fl x2 - x2\<bar> + \<bar>x2 - X\<bar>" by linarith
  with d1 d2 have "\<bar>fl x2 - X\<bar> \<le> 3 * X * u" by linarith
  then show "\<bar>fl (fl x1 * 100) - X\<bar> \<le> 3 * X / 2 ^ 53"
    by (simp only: x2_def y1_def u_def) simp
qed

lemma completionRate_float:
  assumes "0 \<le> todosCompleted a" and "todosCompleted a < 2 ^ 43"
    and "0 < todosCreated a" and "todosCreated a < 2 ^ 53"
  defines "X \<equiv> (100 * of_int (todosCompleted a) / of_int (todosCreated a) :: rat)"
  shows "\<exists>y. completionRate a = Fin (of_int \<lfloor>y + 1/2\<rfloor>) \<and> \<bar>y - X\<bar> \<le> 3 * X / 2 ^ 53"
proof (cases "todosCompleted a = 0")
  case True
  have "round64 0 = Fin 0" using round64_small [of 0] by (simp add: fl_0)
  then have "completionRate a = Fin (of_int \<lfloor>(0::rat) + 1/2\<rfloor>)"
    using assms(3) True
    by (simp add: completionRate_def js_div_def js_mul_def Math_round_def)
  moreover have "\<bar>0 - X\<bar> \<le> 3 * X / 2 ^ 53" using True by (simp add: X_def)
  ultimately show ?thesis by blast
next
  case False
  with assms(1) have c0: "0 < todosCompleted a" by simp
  let ?x1 = "(of_int (todosCompleted a) / of_int (todosCreated a) :: rat)"
  note s = rate_steps [OF c0 assms(2) assms(3) assms(4)]
  have "completionRate a = Fin (of_int \<lfloor>fl (fl ?x1 * 100) + 1/2\<rfloor>)"
    using assms(3) by (simp add: completionRate_def js_div_def js_mul_def Math_round_def s(1) s(2))
  with s(3) show ?thesis unfolding X_def by blast
qed

text \<open>
  C6 (as amended). For counters \<open>0 \<le> todosCompleted < 2^43\<close> and
  \<open>0 \<le> todosCreated < 2^53\<close>, the displayed completion rate is 0 when
  \<open>todosCreated = 0\<close>; otherwise it is \<open>Math.round\<close> of the double
  \<open>(todosCompleted / todosCreated) * 100\<close>, the quotient and the product each rounded to
  the nearest double. That is an integer between the floor and the ceiling of the exact
  percentage \<open>100 * todosCompleted / todosCreated\<close>, and it is the exact rounding
  whenever the exact percentage is not half-way between two integers.
\<close>

theorem completionRate_spec:
  assumes "0 \<le> todosCompleted a" and "todosCompleted a < 2 ^ 43"
    and "0 \<le> todosCreated a" and "todosCreated a < 2 ^ 53"
  shows "(todosCreated a = 0 \<longrightarrow> completionRate a = Fin 0)
   \<and> (todosCreated a \<noteq> 0 \<longrightarrow>
        completionRate a =
          Math_round (js_mul (js_div (Fin (of_int (todosCompleted a)))
                                     (Fin (of_int (todosCreated a)))) (Fin 100))
        \<and> (\<exists>r. completionRate a = Fin (of_int r)
              \<and> \<lfloor>100 * of_int (todosCompleted a) / of_int (todosCreated a) :: rat\<rfloor> \<le> r
              \<and> r \<le> \<lceil>100 * of_int (todosCompleted a) / of_int (todosCreated a) :: rat\<rceil>
              \<and> (frac (100 * of_int (todosCompleted a) / of_int (todosCreated a) :: rat) \<noteq> 1/2 \<longrightarrow>
                   r = round (100 * of_int (todosCompleted a) / of_int (todosCreated a) :: rat))))"
proof (cases "todosCreated a = 0")
  case True
  then show ?thesis by (simp add: completionRate_def)
next
  case False
  with assms(3) have t0: "0 < todosCreated a" by simp
  define c where "c = todosCompleted a"
  define t where "t = todosCreated a"
  define X where "X = (100 * of_int c / of_int t :: rat)"
  have tr: "(0::rat) < of_int t" using t0 by (simp add: t_def)
  have cr: "(0::rat) \<le> of_int c" using assms(1) by (simp add: c_def)
  have X0: "0 \<le> X" using tr cr by (simp add: X_def)
  from completionRate_float [OF assms(1,2) t0 assms(4)]
  obtain y where cy: "completionRate a = Fin (of_int \<lfloor>y + 1/2\<rfloor>)"
    and ey: "\<bar>y - X\<bar> \<le> 3 * X / 2 ^ 53"
    unfolding X_def c_def t_def by blast
  have cb: "(of_int c :: rat) < 2 ^ 43"
    using assms(2) of_int_less_iff [of c "2 ^ 43", where ?'a = rat] by (simp add: c_def)
  have Xt: "X * of_int t = 100 * of_int c" using tr by (simp add: X_def)
  have six: "6 * (X * of_int t) < 2 ^ 53" unfolding Xt using cb by simp
  have t1: "(1::rat) \<le> of_int t" using t0 by (simp add: t_def)
  have "X * 1 \<le> X * of_int t" using t1 X0 by (rule mult_left_mono)
  with six have "6 * X < 2 ^ 53" by simp
  then have half: "3 * X / 2 ^ 53 < 1/2" by simp
  have near: "3 * X / 2 ^ 53 < 1 / (2 * of_int t)"
  proof -
    have "3 * X / 2 ^ 53 * (2 * of_int t) = 6 * (X * of_int t) / 2 ^ 53" by simp
    also have "\<dots> < 1" using six by simp
    finally show ?thesis using tr by (simp add: pos_less_divide_eq)
  qed
  define r where "r = \<lfloor>y + 1/2\<rfloor>"
  have lo: "\<lfloor>X\<rfloor> \<le> r"
  proof -
    have "of_int \<lfloor>X\<rfloor> \<le> X" by simp
    also have "X \<le> y + 1/2" using ey half by linarith
    finally show ?thesis unfolding r_def by (simp add: le_floor_iff)
  qed
  have hi: "r \<le> \<lceil>X\<rceil>"
  proof -
    have "y + 1/2 < X + 1" using ey half by linarith
    also have "\<dots> \<le> of_int \<lceil>X\<rceil> + 1" by simp
    finally have "y + 1/2 < of_int (\<lceil>X\<rceil> + 1)" by simp
    then have "\<lfloor>y + 1/2\<rfloor> < \<lceil>X\<rceil> + 1" by (simp only: floor_less_iff)
    then show ?thesis by (simp add: r_def)
  qed
  have ex: "r = round X" if nh: "frac X \<noteq> 1/2"
  proof -
    define R where "R = round X"
    have R1: "of_int R \<le> X + 1/2" and R2: "X + 1/2 < of_int R + 1"
      unfolding R_def round_def by linarith+
    have "X + 1/2 \<noteq> of_int R"
    proof
      assume "X + 1/2 = of_int R"
      then have X': "X = of_int (R - 1) + 1/2" by simp
      then have "of_int (R - 1) \<le> X" and "X < of_int (R - 1) + 1" by simp_all
      then have "\<lfloor>X\<rfloor> = R - 1" by (rule floor_unique)
      then have "frac X = X - of_int (R - 1)" by (simp only: frac_def)
      with X' have "frac X = 1/2" by simp
      with nh show False by simp
    qed
    with R1 have R1': "of_int R < X + 1/2" by simp
    have a: "(2 * of_int R - 1) * of_int t < (200 * of_int c :: rat)"
    proof -
      have "2 * of_int R - 1 < 2 * X" using R1' by simp
      then have "(2 * of_int R - 1) * of_int t < 2 * X * of_int t"
        using tr by (simp only: mult_less_cancel_right_pos)
      also have "\<dots> = 200 * of_int c" using Xt by simp
      finally show ?thesis .
    qed
    have b: "(200 * of_int c :: rat) < (2 * of_int R + 1) * of_int t"
    proof -
      have "200 * of_int c = 2 * X * of_int t" using Xt by simp
      also have "\<dots> < (2 * of_int R + 1) * of_int t"
      proof -
        have "2 * X < 2 * of_int R + 1" using R2 by simp
        then show ?thesis using tr by (simp only: mult_less_cancel_right_pos)
      qed
      finally show ?thesis .
    qed
    have "(of_int ((2 * R - 1) * t) :: rat) < of_int (200 * c)" using a by simp
    then have "(2 * R - 1) * t < 200 * c" by (simp only: of_int_less_iff)
    then have "(2 * R - 1) * t + 1 \<le> 200 * c" by simp
    then have "(of_int ((2 * R - 1) * t + 1) :: rat) \<le> of_int (200 * c)"
      by (simp only: of_int_le_iff)
    then have a': "(2 * of_int R - 1) * of_int t + 1 \<le> 2 * (X * of_int t)"
      unfolding Xt by simp
    have "(of_int (200 * c) :: rat) < of_int ((2 * R + 1) * t)" using b by simp
    then have "200 * c < (2 * R + 1) * t" by (simp only: of_int_less_iff)
    then have "200 * c + 1 \<le> (2 * R + 1) * t" by simp
    then have "(of_int (200 * c + 1) :: rat) \<le> of_int ((2 * R + 1) * t)"
      by (simp only: of_int_le_iff)
    then have b': "2 * (X * of_int t) + 1 \<le> (2 * of_int R + 1) * of_int t"
      unfolding Xt by simp
    have A: "of_int R - 1/2 + 1 / (2 * of_int t) \<le> X"
    proof -
      have "(of_int R - 1/2 + 1 / (2 * of_int t)) * (2 * of_int t)
            = (2 * of_int R - 1) * (of_int t :: rat) + 1"
        using tr by (simp add: field_simps)
      also have "\<dots> \<le> X * (2 * of_int t)" using a' by simp
      finally have "(of_int R - 1/2 + 1 / (2 * of_int t)) * (2 * of_int t) \<le> X * (2 * of_int t)" .
      moreover have "0 < 2 * (of_int t :: rat)" using tr by simp
      ultimately show ?thesis by (simp only: mult_le_cancel_right_pos)
    qed
    have B: "X \<le> of_int R + 1/2 - 1 / (2 * of_int t)"
    proof -
      have "X * (2 * of_int t) \<le> (2 * of_int R + 1) * of_int t - 1" using b' by simp
      also have "\<dots> = (of_int R + 1/2 - 1 / (2 * of_int t)) * (2 * of_int t)"
        using tr by (simp add: field_simps)
      finally have "X * (2 * of_int t) \<le> (of_int R + 1/2 - 1 / (2 * of_int t)) * (2 * of_int t)" .
      moreover have "0 < 2 * (of_int t :: rat)" using tr by simp
      ultimately show ?thesis by (simp only: mult_le_cancel_right_pos)
    qed
    from A B ey near have "of_int R \<le> y + 1/2" and "y + 1/2 < of_int R + 1"
      by linarith+
    then have "\<lfloor>y + 1/2\<rfloor> = R" by (simp add: floor_unique)
    then show ?thesis by (simp add: r_def R_def)
  qed
  have "completionRate a = Fin (of_int r)" using cy by (simp add: r_def)
  with lo hi ex have "\<exists>r. completionRate a = Fin (of_int r) \<and> \<lfloor>X\<rfloor> \<le> r \<and> r \<le> \<lceil>X\<rceil>
      \<and> (frac X \<noteq> 1/2 \<longrightarrow> r = round X)" by blast
  moreover have "completionRate a =
          Math_round (js_mul (js_div (Fin (of_int (todosCompleted a)))
                                     (Fin (of_int (todosCreated a)))) (Fin 100))"
    using t0 by (simp add: completionRate_def)
  ultimately show ?thesis using False unfolding X_def c_def t_def by simp
qed

lemma fl_23_40: "fl (23 / 40) = 2589569785738035 / 4503599627370496"
  by code_simp

lemma fl_23_40_100:
  "fl (64739244643450875 / 1125899906842624) = 8092405580431359 / 140737488355328"
  by code_simp

lemma completionRate_23_40: "completionRate (counts 23 40) = Fin 57"
proof -
  have a: "round64 (23 / 40) = Fin (2589569785738035 / 4503599627370496)"
    using round64_small [of "23 / 40"] by (simp add: fl_23_40)
  have b: "round64 (64739244643450875 / 1125899906842624)
           = Fin (8092405580431359 / 140737488355328)"
    using round64_small [of "64739244643450875 / 1125899906842624"]
    by (simp add: fl_23_40_100)
  have c: "\<lfloor>8162774324609023 / 140737488355328 :: rat\<rfloor> = 57"
    by (rule floor_unique) simp_all
  have "completionRate (counts 23 40)
        = Math_round (js_mul (js_div (Fin (23 :: rat)) (Fin 40)) (Fin 100))"
    by (simp add: completionRate_def counts_def)
  also have "\<dots> = Fin 57"
    by (simp add: js_div_def a js_mul_def b Math_round_def c)
  finally show ?thesis .
qed

text \<open>
  23 completed tasks of 40: the exact percentage is 57.5, which rounds to 58; the
  double quotient times 100 is just below 57.5 and the program shows 57.
\<close>

theorem completionRate_counterexample:
  "completionRate (counts 23 40) \<noteq> Fin (of_int (round ((23 :: rat) / 40 * 100)))"
proof -
  have "round ((23 :: rat) / 40 * 100) = 58"
    unfolding round_def by (rule floor_unique) simp_all
  then show ?thesis by (simp add: completionRate_23_40)
qed

theorem completionRate_spec_witness:
  "0 \<le> todosCompleted (counts 1 3) \<and> todosCompleted (counts 1 3) < 2 ^ 43
   \<and> 0 \<le> todosCreated (counts 1 3) \<and> todosCreated (counts 1 3) < 2 ^ 53
   \<and> todosCreated (counts 1 3) \<noteq> 0
   \<and> frac (100 * of_int (todosCompleted (counts 1 3)) / of_int (todosCreated (counts 1 3)) :: rat) \<noteq> 1/2
   \<and> completionRate (counts 1 3) = Fin 33
   \<and> todosCreated (counts 5 0) = 0
   \<and> completionRate (counts 5 0) = Fin 0"
proof -
  have f: "\<lfloor>(100 / 3 :: rat)\<rfloor> = 33" by (rule floor_unique) simp_all
  have r: "round (100 / 3 :: rat) = 33" unfolding round_def by (rule floor_unique) simp_all
  have fr: "frac (100 / 3 :: rat) \<noteq> 1/2" by (simp add: frac_def f)
  have v: "todosCompleted (counts 1 3) = 1" "todosCreated (counts 1 3) = 3"
     "todosCompleted (counts 5 0) = 5" "todosCreated (counts 5 0) = 0"
    by (simp_all add: counts_def)
  from completionRate_spec [of "counts 1 3"] completionRate_spec [of "counts 5 0"]
  show ?thesis unfolding v using fr r by auto
qed

section \<open>Average session duration\<close>

lemma fl_abs_small:
  assumes "x \<noteq> 0" and "\<bar>x\<bar> < 2 powi (e + 1)" and "- 1022 \<le> e"
  shows "\<bar>fl x - x\<bar> \<le> 2 powi (e - 53)"
proof -
  from ilog2_bounds [OF assms(1)] assms(2) have "(2::rat) powi (ilog2 x) < 2 powi (e + 1)"
    by linarith
  then have "ilog2 x < e + 1" by (rule powi_less_cancel)
  with assms(3) have "max (ilog2 x) (- 1022) - 53 \<le> e - 53" by simp
  then have "(2::rat) powi (max (ilog2 x) (- 1022) - 53) \<le> 2 powi (e - 53)"
    by (rule powi_mono)
  with fl_abs_error [OF assms(1)] show ?thesis by linarith
qed

lemma int_gap:
  fixes d n m :: int
  assumes n: "0 < n" and lt: "(of_int d :: rat) / of_int n < of_int m"
  shows "(of_int d :: rat) / of_int n \<le> of_int m - 1 / of_int n"
proof -
  have nr: "(0::rat) < of_int n" using n by simp
  from lt nr have "(of_int d :: rat) < of_int m * of_int n" by (simp add: pos_divide_less_eq)
  then have "(of_int d :: rat) < of_int (m * n)" by simp
  then have "d < m * n" by (simp only: of_int_less_iff)
  then have "d \<le> m * n - 1" by simp
  then have "(of_int d :: rat) \<le> of_int (m * n - 1)" by (simp only: of_int_le_iff)
  then have "(of_int d :: rat) \<le> of_int m * of_int n - 1" by simp
  moreover have "(of_int m - 1 / of_int n) * (of_int n :: rat) = of_int m * of_int n - 1"
    using nr by (simp add: left_diff_distrib)
  ultimately have "(of_int d :: rat) \<le> (of_int m - 1 / of_int n) * of_int n" by simp
  then show ?thesis using nr by (simp only: pos_divide_le_eq)
qed

lemma trunc_neg: "trunc (- t) = - trunc t"
  by (cases "t = 0") (auto simp: trunc_def ceiling_def)

lemma int_gap_lo:
  fixes d n m :: int
  assumes n: "0 < n" and lt: "of_int m < (of_int d :: rat) / of_int n"
  shows "of_int m + 1 / of_int n \<le> (of_int d :: rat) / of_int n"
proof -
  have nr: "(0::rat) < of_int n" using n by simp
  from lt nr have "of_int m * of_int n < (of_int d :: rat)" by (simp add: pos_less_divide_eq)
  then have "(of_int (m * n) :: rat) < of_int d" by simp
  then have "m * n < d" by (simp only: of_int_less_iff)
  then have "m * n + 1 \<le> d" by simp
  then have "(of_int (m * n + 1) :: rat) \<le> of_int d" by (simp only: of_int_le_iff)
  then have "of_int m * of_int n + 1 \<le> (of_int d :: rat)" by simp
  moreover have "(of_int m + 1 / of_int n) * (of_int n :: rat) = of_int m * of_int n + 1"
    using nr by (simp add: distrib_right)
  ultimately have "(of_int m + 1 / of_int n) * of_int n \<le> (of_int d :: rat)" by simp
  then show ?thesis using nr by (simp only: pos_le_divide_eq)
qed

lemma avg_steps:
  fixes d n :: int
  assumes d0: "0 \<le> d" and n0: "0 < n" and b: "d + 60000 * n < 2 ^ 51"
  defines "x \<equiv> (of_int d / of_int n :: rat)"
  defines "K \<equiv> \<lfloor>x / 60000\<rfloor>"
  defines "S \<equiv> \<lfloor>(x - 60000 * of_int K) / 1000\<rfloor>"
  shows "round64 x = Fin (fl x)"
    and "round64 (fl x / 60000) = Fin (fl (fl x / 60000))"
    and "\<lfloor>fl (fl x / 60000)\<rfloor> = K"
    and "trunc (fl x / 60000) = K"
    and "round64 ((fl x - 60000 * of_int K) / 1000) = Fin (fl ((fl x - 60000 * of_int K) / 1000))"
    and "\<lfloor>fl ((fl x - 60000 * of_int K) / 1000)\<rfloor> = S"
    and "0 \<le> K" and "K < 2 ^ 51" and "0 \<le> S" and "S < 60"
    and "\<lceil>fl (fl x / 60000)\<rceil> = \<lceil>x / 60000\<rceil>"
    and "\<lceil>fl ((fl x - 60000 * of_int K) / 1000)\<rceil> = \<lceil>(x - 60000 * of_int K) / 1000\<rceil>"
proof -
  define u where "u = (1::rat) / 2 ^ 53"
  define g where "g = (1::rat) / of_int n"
  define r where "r = (of_int n :: rat)"
  have u0: "0 \<le> u" by (simp add: u_def)
  have r0: "0 < r" and r1: "1 \<le> r" using n0 by (simp_all add: r_def)
  have gr: "g * r = 1" using r0 by (simp add: g_def r_def)
  have g0: "0 < g" using r0 by (simp add: g_def r_def)
  have dr: "(0::rat) \<le> of_int d" using d0 by simp
  have "(of_int (d + 60000 * n) :: rat) < of_int (2 ^ 51)" using b by (simp only: of_int_less_iff)
  then have db: "of_int d + 60000 * r < 2 ^ 51" by (simp add: r_def)
  have dlt: "(of_int d :: rat) < 2 ^ 51" using db r0 by simp
  have rlt: "60000 * r < 2 ^ 51" using db dr by simp
  have xr: "x * r = of_int d" using r0 by (simp add: x_def r_def)
  have xg: "x = of_int d * g" by (simp add: x_def g_def)
  have x0: "0 \<le> x" using dr r0 by (simp add: x_def r_def)
  have xle: "x \<le> of_int d"
  proof -
    have "x * 1 \<le> x * r" using r1 x0 by (rule mult_left_mono)
    then show ?thesis by (simp add: xr)
  qed
  have xs: "\<bar>x\<bar> < 2 ^ 53" using x0 xle dlt by simp
  show A: "round64 x = Fin (fl x)" using xs by (rule round64_small)
  have gtiny: "2 powi (- 1022) \<le> g / 120000"
  proof -
    have "120000 * r < 2 ^ 53" using rlt by simp
    then have "1 / 2 ^ 53 < 1 / (120000 * r)" using r0 by (simp add: frac_less2)
    also have "\<dots> = g / 120000" by (simp add: g_def r_def)
    finally show ?thesis using tiny_le by simp
  qed
  have K1': "of_int K \<le> x / 60000" and K2': "x / 60000 < of_int K + 1"
    unfolding K_def by linarith+
  have K1: "60000 * of_int K \<le> x" and K2: "x < 60000 * of_int K + 60000"
    using K1' K2' by simp_all
  show K0: "0 \<le> K" unfolding K_def using x0 by simp
  have "(of_int K :: rat) < of_int (2 ^ 51)" using K1 x0 xle dlt by simp
  then show "K < 2 ^ 51" by (simp only: of_int_less_iff)
  have S1': "of_int S \<le> (x - 60000 * of_int K) / 1000"
    and S2': "(x - 60000 * of_int K) / 1000 < of_int S + 1"
    unfolding S_def by linarith+
  have S1: "60000 * of_int K + 1000 * of_int S \<le> x"
    and S2: "x < 60000 * of_int K + 1000 * of_int S + 1000"
    using S1' S2' by simp_all
  show S0: "0 \<le> S" unfolding S_def using K1 by simp
  have "(x - 60000 * of_int K) / 1000 < of_int (60::int)" using K2 by simp
  then show S60: "S < 60" unfolding S_def by (simp only: floor_less_iff)
  then have S59: "(of_int S :: rat) \<le> 59"
    using of_int_le_iff [of S 59, where ?'a = rat] by simp
  have S0r: "(0::rat) \<le> of_int S" using S0 by simp
  have K0r: "(0::rat) \<le> of_int K" using K0 by simp
  define W where "W = 60000 * K + 1000 * S"
  have Wr: "(of_int W :: rat) = 60000 * of_int K + 1000 * of_int S" by (simp add: W_def)
  have Wlo: "of_int W \<le> x" using S1 by (simp add: Wr)
  have "of_int d / of_int n < (of_int (W + 1000) :: rat)"
    using S2 by (simp add: Wr x_def)
  with n0 have "of_int d / of_int n \<le> (of_int (W + 1000) :: rat) - 1 / of_int n"
    by (rule int_gap)
  then have Whi: "x \<le> of_int W + 1000 - g" by (simp add: x_def g_def)
  have xu: "x * u \<le> g / 4"
  proof -
    have "of_int d * u \<le> 1 / 4" using dlt by (simp add: u_def)
    then have "of_int d * u * g \<le> 1 / 4 * g" using g0 by (simp only: mult_le_cancel_right_pos)
    then show ?thesis by (simp add: xg mult.assoc mult.commute [of g u])
  qed
  have xtiny: "x = 0 \<or> 2 powi (- 1022) \<le> x" and xgg: "x = 0 \<or> g \<le> x"
  proof -
    have "x = 0 \<or> g \<le> x"
    proof (cases "d = 0")
      case True
      then show ?thesis by (simp add: x_def)
    next
      case False
      with d0 have "1 \<le> d" by simp
      then have "(1::rat) \<le> of_int d" using of_int_le_iff [of 1 d, where ?'a = rat] by simp
      then have "1 * g \<le> of_int d * g" using g0 by (simp only: mult_le_cancel_right_pos)
      then show ?thesis by (simp add: xg)
    qed
    then show "x = 0 \<or> g \<le> x" .
    moreover have "g / 120000 \<le> g" using g0 by simp
    ultimately show "x = 0 \<or> 2 powi (- 1022) \<le> x" using gtiny by auto
  qed
  define avg where "avg = fl x"
  have alo: "of_int W \<le> avg" unfolding avg_def using xs Wlo by (rule fl_ge_int)
  have "avg \<le> x + x / 2 ^ 53" unfolding avg_def using x0 xtiny by (rule fl_upper)
  then have ahi': "avg \<le> x + x * u" by (simp add: u_def)
  have ahi: "avg \<le> of_int W + 1000 - 3 / 4 * g" using ahi' xu Whi by linarith
  have a0: "0 \<le> avg" using alo K0r S0r by (simp add: Wr)
  have aK: "60000 * of_int K \<le> avg" using alo S0r by (simp add: Wr)
  have aK1: "avg \<le> 60000 * of_int K + 60000 - 3 / 4 * g"
    using ahi S59 by (simp add: Wr)
  have ab: "avg < 2 ^ 52" using aK1 g0 K1 xle dlt by simp
  have alo2: "x - x * u \<le> avg"
  proof (cases "x = 0")
    case True
    then show ?thesis by (simp add: avg_def fl_0)
  next
    case False
    with xtiny x0 have t: "2 powi (- 1022) \<le> \<bar>x\<bar>" by simp
    from fl_rel_error [OF t] x0 have "\<bar>fl x - x\<bar> \<le> x * u" by (simp add: u_def)
    then show ?thesis unfolding avg_def by linarith
  qed
  have apos: "avg = 0 \<or> g / 2 \<le> avg"
  proof (cases "x = 0")
    case True
    then show ?thesis by (simp add: avg_def fl_0)
  next
    case False
    with xgg have gx: "g \<le> x" by simp
    have "x * u \<le> x * (1/2)" using x0 by (simp add: u_def mult_left_mono)
    with alo2 show ?thesis using gx by simp
  qed
  have gap: "of_int m + 3 / 4 * g \<le> avg" if "of_int m < x" for m :: int
  proof -
    from that have "of_int m < (of_int d :: rat) / of_int n" by (simp add: x_def)
    with n0 have "of_int m + 1 / of_int n \<le> (of_int d :: rat) / of_int n" by (rule int_gap_lo)
    then have "of_int m + g \<le> x" by (simp add: x_def g_def)
    with alo2 xu show ?thesis by linarith
  qed
  have exact: "avg = of_int m" if "x = of_int m" for m :: int
  proof -
    from that have "of_int m \<le> x" and "x \<le> of_int m" by simp_all
    with xs have "of_int m \<le> fl x" and "fl x \<le> of_int m"
      by (auto intro: fl_ge_int fl_le_int)
    then show ?thesis by (simp add: avg_def)
  qed
  define z where "z = avg / 60000"
  have zlo: "of_int K \<le> z" using aK by (simp add: z_def)
  have zhi: "z \<le> of_int K + 1 - g / 80000" using aK1 by (simp add: z_def)
  have z0: "0 \<le> z" using a0 by (simp add: z_def)
  have zs: "\<bar>z\<bar> < 2 ^ 53" using z0 ab a0 by (simp add: z_def)
  show "round64 (fl x / 60000) = Fin (fl (fl x / 60000))"
    using zs unfolding z_def avg_def by (rule round64_small)
  have ztiny: "z = 0 \<or> 2 powi (- 1022) \<le> z"
    using apos gtiny by (auto simp: z_def)
  have KP: "80000 * ((of_int K + 1) * r) < 2 ^ 53"
  proof -
    have "60000 * of_int K * r \<le> x * r" using K1 r0 by (simp only: mult_le_cancel_right_pos)
    then have "60000 * (of_int K * r) \<le> of_int d" by (simp add: xr mult.assoc)
    with db have "60000 * (of_int K * r) + 60000 * r < 2 ^ 51" by linarith
    then have "80000 * (of_int K * r) + 80000 * r < 2 ^ 53" by simp
    then show ?thesis by (simp add: distrib_right)
  qed
  have Ku: "(of_int K + 1) * u < g / 80000"
  proof -
    have "(of_int K + 1) * u * (80000 * r) = 80000 * ((of_int K + 1) * r) * u" by simp
    also have "\<dots> < 2 ^ 53 * u" using KP by (simp add: u_def)
    also have "\<dots> = 1" by (simp add: u_def)
    also have "1 = g / 80000 * (80000 * r)" using gr by simp
    finally have "(of_int K + 1) * u * (80000 * r) < g / 80000 * (80000 * r)" .
    moreover have "0 < 80000 * r" using r0 by simp
    ultimately show ?thesis by (simp only: mult_less_cancel_right_pos)
  qed
  have "fl z \<le> z + z / 2 ^ 53" using z0 ztiny by (rule fl_upper)
  then have fz: "fl z \<le> z + z * u" by (simp add: u_def)
  have "z \<le> of_int K + 1" using zhi g0 by simp
  then have "z * u \<le> (of_int K + 1) * u" using u0 by (rule mult_right_mono)
  with fz zhi Ku have fzhi: "fl z < of_int K + 1" by linarith
  have fzlo: "of_int K \<le> fl z" using zs zlo by (rule fl_ge_int)
  from fzlo fzhi have "\<lfloor>fl z\<rfloor> = K" by (rule floor_unique)
  then show "\<lfloor>fl (fl x / 60000)\<rfloor> = K" by (simp only: z_def avg_def)
  have "z < of_int K + 1" using zhi g0 by simp
  with zlo have "\<lfloor>z\<rfloor> = K" by (rule floor_unique)
  then have "trunc z = K" using z0 by (simp add: trunc_def)
  then show "trunc (fl x / 60000) = K" by (simp only: z_def avg_def)
  define w where "w = (avg - 60000 * of_int K) / 1000"
  have wlo: "of_int S \<le> w" using alo by (simp add: w_def Wr)
  have whi: "w \<le> of_int S + 1 - 3 / 4000 * g" using ahi by (simp add: w_def Wr)
  have w0: "0 \<le> w" using wlo S0r by simp
  have w60: "w < 60" using whi S59 g0 by simp
  have ws: "\<bar>w\<bar> < 2 ^ 53" using w0 w60 by simp
  show "round64 ((fl x - 60000 * of_int K) / 1000) = Fin (fl ((fl x - 60000 * of_int K) / 1000))"
    using ws unfolding w_def avg_def by (rule round64_small)
  have fwlo: "of_int S \<le> fl w" using ws wlo by (rule fl_ge_int)
  have werr: "\<bar>fl w - w\<bar> \<le> 1 / 2 ^ 48"
  proof (cases "w = 0")
    case True
    then show ?thesis by (simp add: fl_0)
  next
    case False
    have "\<bar>w\<bar> < 2 powi (5 + 1)" using w0 w60 by simp
    with False have "\<bar>fl w - w\<bar> \<le> 2 powi (5 - 53)" by (rule fl_abs_small) simp
    moreover have "(2::rat) powi (5 - 53) = 1 / 2 ^ 48" by (simp add: power_int_minus field_simps)
    ultimately show ?thesis by (simp only:)
  qed
  have gbig: "1 / 2 ^ 48 < 3 / 4000 * g"
  proof -
    have "4000 * r < 3 * 2 ^ 48" using rlt by simp
    then have "1 / 2 ^ 48 * (4000 * r) < 3" by simp
    also have "3 = 3 / 4000 * g * (4000 * r)" using gr by simp
    finally have "1 / 2 ^ 48 * (4000 * r) < 3 / 4000 * g * (4000 * r)" .
    moreover have "0 < 4000 * r" using r0 by simp
    ultimately show ?thesis by (simp only: mult_less_cancel_right_pos)
  qed
  have fwhi: "fl w < of_int S + 1" using werr gbig whi by linarith
  from fwlo fwhi have "\<lfloor>fl w\<rfloor> = S" by (rule floor_unique)
  then show "\<lfloor>fl ((fl x - 60000 * of_int K) / 1000)\<rfloor> = S" by (simp only: w_def avg_def)
  have "\<lceil>fl z\<rceil> = \<lceil>x / 60000\<rceil>"
  proof (cases "x / 60000 = of_int K")
    case True
    then have "x = of_int (60000 * K)" by simp
    then have "avg = of_int (60000 * K)" by (rule exact)
    then have zK: "z = of_int K" by (simp add: z_def)
    from fl_ge_int [OF zs, of K] fl_le_int [OF zs, of K] have "fl z = of_int K"
      by (simp add: zK)
    with True show ?thesis by simp
  next
    case False
    with K1' have Klt: "of_int K < x / 60000" by simp
    then have "of_int (60000 * K) < x" by simp
    then have "of_int (60000 * K) + 3 / 4 * g \<le> avg" by (rule gap)
    then have zg: "of_int K + g / 80000 \<le> z" by (simp add: z_def)
    with g0 K0r have zp: "0 < z" by simp
    have "g / 120000 \<le> g / 80000" using g0 by simp
    with zg K0r gtiny have "2 powi (- 1022) \<le> \<bar>z\<bar>" by simp
    from fl_rel_error [OF this] zp have "\<bar>fl z - z\<bar> \<le> z * u" by (simp add: u_def)
    moreover have "z \<le> of_int K + 1" using zhi g0 by simp
    then have "z * u \<le> (of_int K + 1) * u" using u0 by (rule mult_right_mono)
    ultimately have "of_int K < fl z" using zg Ku by linarith
    moreover have "z \<le> of_int (K + 1)" using zhi g0 by simp
    with zs have "fl z \<le> of_int (K + 1)" by (rule fl_le_int)
    ultimately have "\<lceil>fl z\<rceil> = K + 1" by (intro ceiling_unique) simp_all
    moreover have "\<lceil>x / 60000\<rceil> = K + 1" using Klt K2' by (intro ceiling_unique) simp_all
    ultimately show ?thesis by simp
  qed
  then show "\<lceil>fl (fl x / 60000)\<rceil> = \<lceil>x / 60000\<rceil>" by (simp only: z_def avg_def)
  have "\<lceil>fl w\<rceil> = \<lceil>(x - 60000 * of_int K) / 1000\<rceil>"
  proof (cases "(x - 60000 * of_int K) / 1000 = of_int S")
    case True
    then have "x = of_int W" by (simp add: Wr)
    then have "avg = of_int W" by (rule exact)
    then have wS: "w = of_int S" by (simp add: w_def Wr)
    from fl_ge_int [OF ws, of S] fl_le_int [OF ws, of S] have "fl w = of_int S"
      by (simp add: wS)
    with True show ?thesis by simp
  next
    case False
    with S1' have Slt: "of_int S < (x - 60000 * of_int K) / 1000" by simp
    then have "of_int W < x" by (simp add: Wr)
    then have "of_int W + 3 / 4 * g \<le> avg" by (rule gap)
    then have "of_int S + 3 / 4000 * g \<le> w" by (simp add: w_def Wr)
    with werr gbig have "of_int S < fl w" by linarith
    moreover have "w \<le> of_int (S + 1)" using whi g0 by simp
    with ws have "fl w \<le> of_int (S + 1)" by (rule fl_le_int)
    ultimately have "\<lceil>fl w\<rceil> = S + 1" by (intro ceiling_unique) simp_all
    moreover have "\<lceil>(x - 60000 * of_int K) / 1000\<rceil> = S + 1"
      using Slt S2' by (intro ceiling_unique) simp_all
    ultimately show ?thesis by simp
  qed
  then show "\<lceil>fl ((fl x - 60000 * of_int K) / 1000)\<rceil> = \<lceil>(x - 60000 * of_int K) / 1000\<rceil>"
    by (simp only: w_def avg_def)
qed

lemma round64_neg: "round64 x = Fin y \<Longrightarrow> round64 (- x) = Fin (- y)"
  by (auto simp: round64_def Let_def fl_neg split: if_splits)

lemma floor_neg_ceiling: "\<lfloor>- y\<rfloor> = - \<lceil>y :: rat\<rceil>"
  by (simp add: ceiling_def)

lemma avg_neg_steps:
  fixes d n :: int
  assumes d0: "0 \<le> d" and n0: "0 < n" and b: "d + 60000 * n < 2 ^ 51"
  defines "x \<equiv> (of_int d / of_int n :: rat)"
  defines "K \<equiv> \<lfloor>x / 60000\<rfloor>"
  shows "js_div (Fin (- of_int d)) (Fin (of_int n)) = Fin (- fl x)"
    and "Math_floor (js_div (Fin (- fl x)) (Fin 60000)) = Fin (of_int (- \<lceil>x / 60000\<rceil>))"
    and "js_mod (Fin (- fl x)) (Fin 60000) = Fin (- (fl x - 60000 * of_int K))"
    and "Math_floor (js_div (Fin (- (fl x - 60000 * of_int K))) (Fin 1000))
         = Fin (of_int (- \<lceil>(x - 60000 * of_int K) / 1000\<rceil>))"
    and "trunc (- x / 60000) = - K"
    and "\<bar>\<lceil>x / 60000\<rceil>\<bar> \<le> 2 ^ 53"
    and "\<bar>\<lceil>(x - 60000 * of_int K) / 1000\<rceil>\<bar> \<le> 2 ^ 53"
proof -
  note st = avg_steps [OF d0 n0 b, folded x_def, folded K_def]
  have nn: "(of_int n :: rat) \<noteq> 0" using n0 by simp
  have x0: "0 \<le> x" using d0 n0 by (simp add: x_def)
  have e1: "- of_int d / (of_int n :: rat) = - x" by (simp add: x_def)
  have "js_div (Fin (- of_int d)) (Fin (of_int n)) = round64 (- x)"
    using nn by (simp add: js_div_def x_def)
  also have "\<dots> = Fin (- fl x)" using st(1) by (rule round64_neg)
  finally show "js_div (Fin (- of_int d)) (Fin (of_int n)) = Fin (- fl x)" .
  have e2: "- fl x / 60000 = - (fl x / 60000)" by simp
  have "js_div (Fin (- fl x)) (Fin 60000) = Fin (- fl (fl x / 60000))"
    using round64_neg [OF st(2)] by (simp add: js_div_def)
  then have "Math_floor (js_div (Fin (- fl x)) (Fin 60000)) = Fin (of_int \<lfloor>- fl (fl x / 60000)\<rfloor>)"
    by (simp add: Math_floor_def)
  also have "\<lfloor>- fl (fl x / 60000)\<rfloor> = - \<lceil>x / 60000\<rceil>"
    by (simp only: floor_neg_ceiling st(11))
  finally show "Math_floor (js_div (Fin (- fl x)) (Fin 60000)) = Fin (of_int (- \<lceil>x / 60000\<rceil>))" .
  have t: "trunc (- (fl x / 60000)) = - K" by (simp only: trunc_neg st(4))
  show "js_mod (Fin (- fl x)) (Fin 60000) = Fin (- (fl x - 60000 * of_int K))"
    by (simp add: js_mod_def t)
  have e3: "(60000 * of_int K - fl x) / 1000 = - ((fl x - 60000 * of_int K) / 1000)"
    by (simp add: diff_divide_distrib)
  have "js_div (Fin (- (fl x - 60000 * of_int K))) (Fin 1000)
        = round64 ((60000 * of_int K - fl x) / 1000)"
    by (simp add: js_div_def)
  also have "\<dots> = round64 (- ((fl x - 60000 * of_int K) / 1000))"
    by (simp only: e3)
  also have "\<dots> = Fin (- fl ((fl x - 60000 * of_int K) / 1000))"
    using st(5) by (rule round64_neg)
  finally have "Math_floor (js_div (Fin (- (fl x - 60000 * of_int K))) (Fin 1000))
        = Fin (of_int \<lfloor>- fl ((fl x - 60000 * of_int K) / 1000)\<rfloor>)"
    by (simp add: Math_floor_def)
  also have "\<lfloor>- fl ((fl x - 60000 * of_int K) / 1000)\<rfloor> = - \<lceil>(x - 60000 * of_int K) / 1000\<rceil>"
    by (simp only: floor_neg_ceiling st(12))
  finally show "Math_floor (js_div (Fin (- (fl x - 60000 * of_int K))) (Fin 1000))
         = Fin (of_int (- \<lceil>(x - 60000 * of_int K) / 1000\<rceil>))" .
  have "\<lfloor>x / 60000\<rfloor> = K" by (simp add: K_def)
  moreover have "0 \<le> x / 60000" using x0 by simp
  ultimately have "trunc (x / 60000) = K" by (simp add: trunc_def)
  then have "trunc (- (x / 60000)) = - K" by (simp only: trunc_neg)
  then show "trunc (- x / 60000) = - K" by simp
  have c1: "\<lceil>x / 60000\<rceil> - K \<le> 1" unfolding K_def by (rule ceiling_diff_floor_le_1)
  have p: "(2::int) ^ 51 \<le> 2 ^ 53" and p60: "(60::int) \<le> 2 ^ 53" by simp_all
  have "0 \<le> \<lceil>x / 60000\<rceil>" using x0 by simp
  with c1 st(8) p show "\<bar>\<lceil>x / 60000\<rceil>\<bar> \<le> 2 ^ 53" by linarith
  define S where "S = \<lfloor>(x - 60000 * of_int K) / 1000\<rfloor>"
  have c2: "\<lceil>(x - 60000 * of_int K) / 1000\<rceil> - S \<le> 1"
    unfolding S_def by (rule ceiling_diff_floor_le_1)
  have "S \<le> \<lceil>(x - 60000 * of_int K) / 1000\<rceil>" unfolding S_def by (rule floor_le_ceiling)
  with c2 st(9) st(10) p60 show "\<bar>\<lceil>(x - 60000 * of_int K) / 1000\<rceil>\<bar> \<le> 2 ^ 53"
    unfolding S_def by linarith
qed

lemma showInt_0: "showInt 0 = ''0''"
  by (simp add: showInt_def digitChar_def)

lemma showInt_2: "showInt 2 = ''2''"
  by (simp add: showInt_def digitChar_def)

lemma showInt_46: "showInt 46 = ''46''"
  by (simp add: showInt_def digitChar_def)

lemma numToString_int:
  "\<bar>i\<bar> \<le> 2 ^ 53 \<Longrightarrow> numToString (Fin (of_int i)) = Some (showInt i)"
proof -
  assume "\<bar>i\<bar> \<le> 2 ^ 53"
  then have "\<bar>of_int i :: rat\<bar> \<le> of_int (2 ^ 53)"
    by (simp only: of_int_abs [symmetric] of_int_le_iff)
  then show ?thesis by (simp add: numToString_def)
qed

lemma js_sub_int:
  "\<bar>now - start\<bar> < 2 ^ 53 \<Longrightarrow>
   js_sub (Fin (of_int now)) (Fin (of_int start)) = Fin (of_int (now - start))"
proof -
  assume a: "\<bar>now - start\<bar> < 2 ^ 53"
  then have "\<bar>of_int (now - start) :: rat\<bar> < of_int (2 ^ 53)"
    by (simp only: of_int_abs [symmetric] of_int_less_iff)
  then have "\<bar>of_int (now - start) :: rat\<bar> < 2 ^ 53" by simp
  then have "round64 (of_int (now - start)) = Fin (fl (of_int (now - start)))"
    by (rule round64_small)
  with fl_of_int [OF a] show ?thesis by (simp add: js_sub_def)
qed

lemma getAverageSessionDuration_exact:
  assumes n0: "0 < sessionsCount a"
    and b: "\<bar>now - sessionStart a\<bar> + 60000 * sessionsCount a < 2 ^ 51"
  defines "avg \<equiv> (of_int (now - sessionStart a) / of_int (sessionsCount a) :: rat)"
  shows "getAverageSessionDuration a now =
           Some (showInt \<lfloor>avg / 60000\<rfloor> @ ''m ''
                 @ showInt \<lfloor>(avg - 60000 * of_int (trunc (avg / 60000))) / 1000\<rfloor> @ ''s'')"
proof -
  define d where "d = now - sessionStart a"
  define n where "n = sessionsCount a"
  have avg: "avg = of_int d / of_int n" by (simp add: avg_def d_def n_def)
  have n0': "0 < n" using n0 by (simp add: n_def)
  have b': "\<bar>d\<bar> + 60000 * n < 2 ^ 51" using b by (simp add: d_def n_def)
  have "\<bar>d\<bar> < 2 ^ 53" using b' n0' by simp
  then have sub: "js_sub (Fin (of_int now)) (Fin (of_int (sessionStart a))) = Fin (of_int d)"
    unfolding d_def by (rule js_sub_int)
  have unf: "getAverageSessionDuration a now =
      minutesSeconds (Math_floor (js_div (js_div (Fin (of_int d)) (Fin (of_int n))) (Fin 60000)))
        (Math_floor (js_div (js_mod (js_div (Fin (of_int d)) (Fin (of_int n))) (Fin 60000)) (Fin 1000)))"
    using n0 by (simp add: getAverageSessionDuration_def Let_def sub d_def [symmetric] n_def [symmetric])
  show ?thesis
  proof (cases "0 \<le> d")
    case True
    define K where "K = \<lfloor>avg / 60000\<rfloor>"
    define S where "S = \<lfloor>(avg - 60000 * of_int K) / 1000\<rfloor>"
    from True b' have b'': "d + 60000 * n < 2 ^ 51" by simp
    note st = avg_steps [of d n, folded avg, folded K_def, folded S_def, OF True n0' b'']
    have nn: "(of_int n :: rat) \<noteq> 0" using n0' by simp
    have q: "js_div (Fin (of_int d)) (Fin (of_int n)) = Fin (fl avg)"
      using nn st(1) by (simp add: js_div_def avg)
    have m: "Math_floor (js_div (Fin (fl avg)) (Fin 60000)) = Fin (of_int K)"
      using st(2) st(3) by (simp add: js_div_def Math_floor_def)
    have r: "js_mod (Fin (fl avg)) (Fin 60000) = Fin (fl avg - 60000 * of_int K)"
      using st(4) by (simp add: js_mod_def)
    have s: "Math_floor (js_div (Fin (fl avg - 60000 * of_int K)) (Fin 1000)) = Fin (of_int S)"
      using st(5) st(6) by (simp add: js_div_def Math_floor_def)
    have Kb: "\<bar>K\<bar> \<le> 2 ^ 53" using st(7) st(8) by simp
    have Sb: "\<bar>S\<bar> \<le> 2 ^ 53" using st(9) st(10) by simp
    have "0 \<le> avg / 60000" using True n0' by (simp add: avg)
    then have tr: "trunc (avg / 60000) = K" by (simp add: trunc_def K_def)
    have "getAverageSessionDuration a now = minutesSeconds (Fin (of_int K)) (Fin (of_int S))"
      by (simp only: unf q m r s)
    also have "\<dots> = Some (showInt K @ ''m '' @ showInt S @ ''s'')"
      by (simp add: minutesSeconds_def numToString_int [OF Kb] numToString_int [OF Sb])
    finally show ?thesis by (simp only: tr S_def) (simp only: K_def)
  next
    case False
    define e where "e = - d"
    define x where "x = (of_int e / of_int n :: rat)"
    define K where "K = \<lfloor>x / 60000\<rfloor>"
    define M where "M = - \<lceil>x / 60000\<rceil>"
    define S where "S = - \<lceil>(x - 60000 * of_int K) / 1000\<rceil>"
    from False have e0: "0 \<le> e" by (simp add: e_def)
    from False b' have b'': "e + 60000 * n < 2 ^ 51" by (simp add: e_def)
    note st = avg_neg_steps [of e n, folded x_def, folded K_def, OF e0 n0' b'']
    have de: "(of_int d :: rat) = - of_int e" by (simp add: e_def)
    have ax: "avg = - x" by (simp add: avg x_def e_def)
    have m: "Math_floor (js_div (Fin (- fl x)) (Fin 60000)) = Fin (of_int M)"
      unfolding M_def by (rule st(2))
    have s: "Math_floor (js_div (Fin (- (fl x - 60000 * of_int K))) (Fin 1000)) = Fin (of_int S)"
      unfolding S_def by (rule st(4))
    have Mb: "\<bar>M\<bar> \<le> 2 ^ 53" using st(6) by (simp add: M_def)
    have Sb: "\<bar>S\<bar> \<le> 2 ^ 53" using st(7) by (simp add: S_def)
    have "getAverageSessionDuration a now = minutesSeconds (Fin (of_int M)) (Fin (of_int S))"
      by (simp only: unf de st(1) m st(3) s)
    also have "\<dots> = Some (showInt M @ ''m '' @ showInt S @ ''s'')"
      by (simp add: minutesSeconds_def numToString_int [OF Mb] numToString_int [OF Sb])
    finally have res: "getAverageSessionDuration a now = Some (showInt M @ ''m '' @ showInt S @ ''s'')" .
    have "avg / 60000 = - (x / 60000)" by (simp add: ax)
    then have fM: "\<lfloor>avg / 60000\<rfloor> = M" by (simp only: floor_neg_ceiling M_def)
    have "avg / 60000 = - x / 60000" by (simp add: ax)
    then have tr: "trunc (avg / 60000) = - K" by (simp only: st(5))
    have "(avg - 60000 * of_int (- K)) / 1000 = - ((x - 60000 * of_int K) / 1000)"
      by (simp add: ax diff_divide_distrib)
    then have fS: "\<lfloor>(avg - 60000 * of_int (- K)) / 1000\<rfloor> = S"
      by (simp only: floor_neg_ceiling S_def)
    show ?thesis by (simp only: res fM tr fS)
  qed
qed

lemma showInt_m1: "showInt (- 1) = ''-1''"
  by (simp add: showInt_def digitChar_def)

lemma showInt_59: "showInt 59 = ''59''"
  by (simp add: showInt_def digitChar_def)

text \<open>
  A clock set back by one second, seven sessions: the average is about \<open>-142.9\<close> ms,
  shown as \<open>-1m -1s\<close>.
\<close>

lemma getAverageSessionDuration_negative:
  "getAverageSessionDuration (session 1000 7) 0 = Some ''-1m -1s''"
proof -
  have v: "sessionsCount (session 1000 7) = 7" "sessionStart (session 1000 7) = 1000"
    by (simp_all add: session_def)
  have k: "\<lfloor>(of_int (0 - 1000) / of_int 7 :: rat) / 60000\<rfloor> = - 1"
    by (rule floor_unique) simp_all
  have "\<lceil>(of_int (0 - 1000) / of_int 7 :: rat) / 60000\<rceil> = 0"
    by (rule ceiling_unique) simp_all
  then have tr: "trunc ((of_int (0 - 1000) / of_int 7 :: rat) / 60000) = 0"
    by (simp add: trunc_def)
  have s: "\<lfloor>((of_int (0 - 1000) / of_int 7 :: rat) - 60000 * of_int (0::int)) / 1000\<rfloor> = - 1"
    by (rule floor_unique) simp_all
  have h: "(0::int) < 7" "\<bar>(0::int) - 1000\<bar> + 60000 * 7 < 2 ^ 51"
    by simp_all
  from getAverageSessionDuration_exact [of "session 1000 7" 0, unfolded v, OF h]
  show ?thesis unfolding k tr s by (simp add: showInt_m1)
qed

text \<open>The floor division of the same average gives \<open>-1m 59s\<close>.\<close>

lemma specAverageSessionDuration_negative:
  "specAverageSessionDuration (session 1000 7) 0 = ''-1m 59s''"
proof -
  have v: "sessionsCount (session 1000 7) = 7" "sessionStart (session 1000 7) = 1000"
    by (simp_all add: session_def)
  have k: "\<lfloor>(of_int (0 - 1000) / of_int 7 :: rat) / 60000\<rfloor> = - 1"
    by (rule floor_unique) simp_all
  have s: "\<lfloor>((of_int (0 - 1000) / of_int 7 :: rat) - 60000 * of_int (- 1 :: int)) / 1000\<rfloor> = 59"
    by (rule floor_unique) simp_all
  show ?thesis
    unfolding specAverageSessionDuration_def Let_def v k s
    by (simp add: showInt_m1 showInt_59)
qed

text \<open>
  C8 (as amended). For \<open>sessionsCount > 0\<close> and
  \<open>|now - sessionStart| + 60000 * sessionsCount < 2^51\<close> the double arithmetic loses
  nothing: the result is the template \<open>{minutes}m {seconds}s\<close> filled from the exact
  quotient \<open>avg\<close> of the current session's duration \<open>now - sessionStart\<close> by
  \<open>sessionsCount\<close>, and from nothing else; minutes is the floor of \<open>avg / 60000\<close> and
  seconds is the floor of the thousandth of the remainder, the remainder being
  taken with the quotient truncated towards zero, as \<open>%\<close> does. For a duration that
  is not negative the truncation is the floor, and the result is the floor division
  of the average into minutes and seconds.
\<close>

theorem getAverageSessionDuration_spec:
  assumes "0 < sessionsCount a"
    and "\<bar>now - sessionStart a\<bar> + 60000 * sessionsCount a < 2 ^ 51"
  shows "getAverageSessionDuration a now =
          Some (showInt \<lfloor>(of_int (now - sessionStart a) / of_int (sessionsCount a) :: rat) / 60000\<rfloor>
                @ ''m ''
                @ showInt \<lfloor>((of_int (now - sessionStart a) / of_int (sessionsCount a) :: rat)
                     - 60000 * of_int (trunc ((of_int (now - sessionStart a)
                                                / of_int (sessionsCount a) :: rat) / 60000))) / 1000\<rfloor>
                @ ''s'')
   \<and> (0 \<le> now - sessionStart a \<longrightarrow>
        getAverageSessionDuration a now = Some (specAverageSessionDuration a now))"
proof -
  note 1 = getAverageSessionDuration_exact [OF assms]
  have 2: "getAverageSessionDuration a now = Some (specAverageSessionDuration a now)"
    if "0 \<le> now - sessionStart a"
  proof -
    from that assms(1)
    have "0 \<le> (of_int (now - sessionStart a) / of_int (sessionsCount a) :: rat) / 60000"
      by simp
    then have "trunc ((of_int (now - sessionStart a) / of_int (sessionsCount a) :: rat) / 60000)
        = \<lfloor>(of_int (now - sessionStart a) / of_int (sessionsCount a) :: rat) / 60000\<rfloor>"
      by (simp only: trunc_def if_True)
    with 1 show ?thesis by (simp only: specAverageSessionDuration_def Let_def)
  qed
  from 1 2 show ?thesis by blast
qed

text \<open>
  For a negative duration the result is not the floor division: with the clock set
  back by one second and seven sessions the program shows \<open>-1m -1s\<close>, the floor
  division gives \<open>-1m 59s\<close>.
\<close>

theorem getAverageSessionDuration_counterexample:
  "0 < sessionsCount (session 1000 7)
   \<and> getAverageSessionDuration (session 1000 7) 0
       \<noteq> Some (specAverageSessionDuration (session 1000 7) 0)"
proof -
  have "0 < sessionsCount (session 1000 7)"
    by (simp add: session_def)
  then show ?thesis
    by (simp add: getAverageSessionDuration_negative specAverageSessionDuration_negative)
qed

theorem getAverageSessionDuration_spec_witness:
  "0 < sessionsCount (session 1000 3)
   \<and> \<bar>500000 - sessionStart (session 1000 3)\<bar> + 60000 * sessionsCount (session 1000 3) < 2 ^ 51
   \<and> 0 \<le> 500000 - sessionStart (session 1000 3)
   \<and> getAverageSessionDuration (session 1000 3) 500000 = Some ''2m 46s''
   \<and> specAverageSessionDuration (session 1000 3) 500000 = ''2m 46s''"
proof -
  have v: "sessionsCount (session 1000 3) = 3" "sessionStart (session 1000 3) = 1000"
    by (simp_all add: session_def)
  have k: "\<lfloor>(of_int (500000 - 1000) / of_int 3 :: rat) / 60000\<rfloor> = 2"
    by (rule floor_unique) simp_all
  have s: "\<lfloor>((of_int (500000 - 1000) / of_int 3 :: rat) - 60000 * of_int (2::int)) / 1000\<rfloor> = 46"
    by (rule floor_unique) simp_all
  have h: "0 < sessionsCount (session 1000 3)"
      "\<bar>500000 - sessionStart (session 1000 3)\<bar> + 60000 * sessionsCount (session 1000 3) < 2 ^ 51"
      "0 \<le> 500000 - sessionStart (session 1000 3)"
    by (simp_all add: v)
  have e: "specAverageSessionDuration (session 1000 3) 500000 = ''2m 46s''"
    unfolding specAverageSessionDuration_def Let_def v k s
    by (simp add: showInt_2 showInt_46)
  from getAverageSessionDuration_spec [OF h(1) h(2)] h(3)
  have "getAverageSessionDuration (session 1000 3) 500000
          = Some (specAverageSessionDuration (session 1000 3) 500000)"
    by blast
  with e h show ?thesis by simp
qed

lemma trunc_near: "\<bar>t - of_int (trunc t)\<bar> < 1"
proof (cases "0 \<le> t")
  case True
  have "of_int \<lfloor>t\<rfloor> \<le> t" and "t < of_int \<lfloor>t\<rfloor> + 1" by linarith+
  with True show ?thesis by (simp add: trunc_def)
next
  case False
  have "t \<le> of_int \<lceil>t\<rceil>" and "of_int \<lceil>t\<rceil> < t + 1" by linarith+
  with False show ?thesis by (simp add: trunc_def)
qed

lemma floor_bounded:
  fixes y :: rat and B :: int
  assumes "\<bar>y\<bar> \<le> of_int B"
  shows "\<bar>\<lfloor>y\<rfloor>\<bar> \<le> B"
proof -
  from assms have "of_int (- B) \<le> y" and "y \<le> of_int B" by simp_all
  then have "- B \<le> \<lfloor>y\<rfloor>" and "\<lfloor>y\<rfloor> \<le> B"
    by (simp_all add: le_floor_iff floor_le_iff)
  then show ?thesis by simp
qed

lemma getAverageSessionDuration_wellformed:
  assumes "\<bar>now - sessionStart a\<bar> < 2 ^ 53"
  shows "\<exists>m s. getAverageSessionDuration a now = Some (showInt m @ ''m '' @ showInt s @ ''s'')"
proof (cases "sessionsCount a = 0")
  case True
  then have "getAverageSessionDuration a now = Some (showInt 0 @ ''m '' @ showInt 0 @ ''s'')"
    by (simp add: getAverageSessionDuration_def showInt_0)
  then show ?thesis by blast
next
  case False
  define d where "d = now - sessionStart a"
  define n where "n = sessionsCount a"
  define x where "x = (of_int d / of_int n :: rat)"
  have nn: "(of_int n :: rat) \<noteq> 0" using False by (simp add: n_def)
  have n1: "1 \<le> \<bar>of_int n :: rat\<bar>"
  proof -
    from False have "1 \<le> \<bar>n\<bar>" by (simp add: n_def)
    then have "(of_int 1 :: rat) \<le> of_int \<bar>n\<bar>" by (simp only: of_int_le_iff)
    then show ?thesis by simp
  qed
  have db: "\<bar>of_int d :: rat\<bar> < 2 ^ 53"
  proof -
    have "(of_int \<bar>d\<bar> :: rat) < of_int (2 ^ 53)" using assms by (simp only: of_int_less_iff d_def)
    then show ?thesis by simp
  qed
  have "\<bar>x\<bar> * 1 \<le> \<bar>x\<bar> * \<bar>of_int n\<bar>" using n1 by (rule mult_left_mono) simp
  also have "\<dots> = \<bar>of_int d\<bar>"
  proof -
    have "x * of_int n = of_int d" using nn by (simp add: x_def)
    then have "\<bar>x * of_int n\<bar> = \<bar>of_int d :: rat\<bar>" by (simp only:)
    then show ?thesis by (simp only: abs_mult)
  qed
  finally have xs: "\<bar>x\<bar> < 2 ^ 53" using db by simp
  have sub: "js_sub (Fin (of_int now)) (Fin (of_int (sessionStart a))) = Fin (of_int d)"
    unfolding d_def using assms by (rule js_sub_int)
  define avg where "avg = fl x"
  have q: "js_div (Fin (of_int d)) (Fin (of_int n)) = Fin avg"
    using nn round64_small [OF xs] by (simp add: js_div_def x_def avg_def)
  have ab: "\<bar>avg\<bar> \<le> 2 ^ 53" unfolding avg_def using xs by (rule fl_bounded)
  define z where "z = avg / 60000"
  have zs: "\<bar>z\<bar> < 2 ^ 53" using ab by (simp add: z_def)
  have q2: "js_div (Fin avg) (Fin 60000) = Fin (fl z)"
    using round64_small [OF zs] by (simp add: js_div_def z_def)
  define m where "m = \<lfloor>fl z\<rfloor>"
  have "\<bar>fl z\<bar> \<le> of_int (2 ^ 53)" using fl_bounded [OF zs] by simp
  then have mb: "\<bar>m\<bar> \<le> 2 ^ 53" unfolding m_def by (rule floor_bounded)
  define w where "w = (avg - 60000 * of_int (trunc z)) / 1000"
  have "avg - 60000 * of_int (trunc z) = 60000 * (z - of_int (trunc z))" by (simp add: z_def)
  then have "\<bar>avg - 60000 * of_int (trunc z)\<bar> = \<bar>60000 * (z - of_int (trunc z))\<bar>"
    by (simp only:)
  also have "\<dots> = 60000 * \<bar>z - of_int (trunc z)\<bar>"
    by (simp only: abs_mult abs_numeral)
  finally have "\<bar>avg - 60000 * of_int (trunc z)\<bar> = 60000 * \<bar>z - of_int (trunc z)\<bar>" .
  with trunc_near [of z] have w60: "\<bar>w\<bar> < 60" by (simp add: w_def)
  then have ws: "\<bar>w\<bar> < 2 ^ 53" by simp
  have md: "js_mod (Fin avg) (Fin 60000) = Fin (avg - 60000 * of_int (trunc z))"
    by (simp add: js_mod_def z_def)
  have q3: "js_div (Fin (avg - 60000 * of_int (trunc z))) (Fin 1000) = Fin (fl w)"
    using round64_small [OF ws] by (simp add: js_div_def w_def)
  define s where "s = \<lfloor>fl w\<rfloor>"
  have "\<bar>fl w\<bar> \<le> of_int (2 ^ 53)" using fl_bounded [OF ws] by simp
  then have sb: "\<bar>s\<bar> \<le> 2 ^ 53" unfolding s_def by (rule floor_bounded)
  have "getAverageSessionDuration a now = minutesSeconds (Fin (of_int m)) (Fin (of_int s))"
    using False
    by (simp add: getAverageSessionDuration_def Let_def sub d_def [symmetric] n_def [symmetric]
        q q2 md q3 Math_floor_def m_def s_def)
  also have "\<dots> = Some (showInt m @ ''m '' @ showInt s @ ''s'')"
    by (simp add: minutesSeconds_def numToString_int [OF mb] numToString_int [OF sb])
  finally show ?thesis by blast
qed

text \<open>What a division by zero would give.\<close>

lemma js_div_by_zero:
  "js_div (Fin 0) (Fin 0) = NaN" "js_div (Fin 5) (Fin 0) = PosInf" "js_div (Fin (- 5)) (Fin 0) = NegInf"
  by (simp_all add: js_div_def)

text \<open>
  C10. With \<open>sessionsCount = 0\<close> the result is the string \<open>0m 0s\<close>; the division by
  \<open>sessionsCount\<close> is evaluated only in the other branch, where the divisor is not
  zero. So, for every state and every clock value with \<open>|now - sessionStart| < 2^53\<close>,
  the result is a string of two integers: no NaN or infinity from a division by zero
  reaches it.
\<close>

theorem getAverageSessionDuration_total:
  "(sessionsCount a = 0 \<longrightarrow> getAverageSessionDuration a now = Some ''0m 0s'')
   \<and> (sessionsCount a \<noteq> 0 \<longrightarrow> (of_int (sessionsCount a) :: rat) \<noteq> 0
        \<and> getAverageSessionDuration a now =
          (let avgDuration = js_div (js_sub (Fin (of_int now)) (Fin (of_int (sessionStart a))))
                                    (Fin (of_int (sessionsCount a)))
           in minutesSeconds (Math_floor (js_div avgDuration (Fin 60000)))
                             (Math_floor (js_div (js_mod avgDuration (Fin 60000)) (Fin 1000)))))
   \<and> (\<bar>now - sessionStart a\<bar> < 2 ^ 53 \<longrightarrow>
        (\<exists>m s. getAverageSessionDuration a now = Some (showInt m @ ''m '' @ showInt s @ ''s'')))"
  using getAverageSessionDuration_wellformed [of now a]
  by (simp add: getAverageSessionDuration_def Let_def)

theorem getAverageSessionDuration_total_witness:
  "sessionsCount (session 1000 0) = 0
   \<and> getAverageSessionDuration (session 1000 0) 500000 = Some ''0m 0s''
   \<and> sessionsCount (session 1000 3) \<noteq> 0
   \<and> \<bar>500000 - sessionStart (session 1000 3)\<bar> < 2 ^ 53
   \<and> (\<exists>m s. getAverageSessionDuration (session 1000 3) 500000
              = Some (showInt m @ ''m '' @ showInt s @ ''s''))"
proof -
  have v: "sessionsCount (session 1000 0) = 0" "sessionsCount (session 1000 3) = 3"
      "sessionStart (session 1000 3) = 1000"
    by (simp_all add: session_def)
  have h: "\<bar>(500000::int) - 1000\<bar> < 2 ^ 53" "(3::int) \<noteq> 0" by simp_all
  from getAverageSessionDuration_total [of "session 1000 0" 500000]
  have a: "getAverageSessionDuration (session 1000 0) 500000 = Some ''0m 0s''"
    unfolding v by blast
  from getAverageSessionDuration_total [of "session 1000 3" 500000] h
  have b: "\<exists>m s. getAverageSessionDuration (session 1000 3) 500000
              = Some (showInt m @ ''m '' @ showInt s @ ''s'')"
    unfolding v by blast
  from a b h show ?thesis unfolding v by (intro conjI) simp_all
qed

end
